theory Spec2Isabelle
  imports Complex_Main "HOL-Library.List_Lexorder" "HOL-Library.Char_ord"
begin

text \<open>
  A shallow embedding of the web-analytics controller of the Shotlin backend
  (\<open>src/modules/analytics/analytics.controller.ts\<close>, with the request schemas of
  \<open>analytics.routes.ts\<close>): the two public ingestion handlers \<open>collect\<close> and
  \<open>heartbeat\<close>, and the aggregation handlers for summary statistics, the time series
  and the top pages, together with the traffic-source categorisation of the referrers
  view. The handlers are functions of the store (and of what they read from the clock,
  the database and the network), so every property below is a statement about all
  stores and all requests.
\<close>

section \<open>JavaScript values\<close>

subsection \<open>Strings\<close>

text \<open>
  Strings are lists of characters. A value of type \<open>string | null | undefined\<close> is a
  \<open>string option\<close>; the truthiness test \<open>if (s)\<close> on such a value fails for the
  absent value and for the empty string.
\<close>

definition truthy :: "string option \<Rightarrow> bool" where
  "truthy v = (case v of None \<Rightarrow> False | Some s \<Rightarrow> s \<noteq> [])"

text \<open>
  \<open>String.prototype.toLowerCase\<close> on the letters \<open>A\<close> to \<open>Z\<close>; every other
  character is left as it is (the model does not cover case mappings outside ASCII).
\<close>

definition lowerChar :: "char \<Rightarrow> char" where
  "lowerChar c =
     (case map_of (zip ''ABCDEFGHIJKLMNOPQRSTUVWXYZ'' ''abcdefghijklmnopqrstuvwxyz'') c of
        None \<Rightarrow> c
      | Some l \<Rightarrow> l)"

definition toLowerCase :: "string \<Rightarrow> string" where
  "toLowerCase s = map lowerChar s"

fun startsWith :: "string \<Rightarrow> string \<Rightarrow> bool" where
  "startsWith s [] = True"
| "startsWith [] (c # cs) = False"
| "startsWith (x # xs) (c # cs) = (x = c \<and> startsWith xs cs)"

text \<open>\<open>s.includes(sub)\<close> on strings: \<open>sub\<close> occurs in \<open>s\<close> as a substring.\<close>

fun str_includes :: "string \<Rightarrow> string \<Rightarrow> bool" where
  "str_includes [] sub = (sub = [])"
| "str_includes (x # xs) sub = (startsWith (x # xs) sub \<or> str_includes xs sub)"

text \<open>\<open>arr.includes(s)\<close> on arrays: \<open>s\<close> is equal to one of the elements.\<close>

definition arr_includes :: "string list \<Rightarrow> string \<Rightarrow> bool" where
  "arr_includes arr s = (s \<in> set arr)"

text \<open>The white space that \<open>trim\<close> and \<open>parseInt\<close> skip, as far as it is ASCII.\<close>

definition isSpace :: "char \<Rightarrow> bool" where
  "isSpace c = (c \<in> set [CHR '' '', CHR 0x09, CHR 0x0A, CHR 0x0B, CHR 0x0C, CHR 0x0D])"

definition trim :: "string \<Rightarrow> string" where
  "trim s = rev (dropWhile isSpace (rev (dropWhile isSpace s)))"

text \<open>
  \<open>String(n)\<close> for an integer \<open>n\<close>, and \<open>padStart(2, "0")\<close>. \<open>showPos\<close> renders a
  non-negative number, most significant digit first.
\<close>

definition digitChar :: "int \<Rightarrow> char" where
  "digitChar d = ''0123456789'' ! nat d"

function showPos :: "int \<Rightarrow> string" where
  "showPos n = (if n < 10 then [digitChar n] else showPos (n div 10) @ [digitChar (n mod 10)])"
  by pat_completeness auto
termination
  by (relation "measure nat") auto

definition showInt :: "int \<Rightarrow> string" where
  "showInt i = (if i < 0 then CHR ''-'' # showPos (- i) else showPos i)"

definition padStart2 :: "string \<Rightarrow> string" where
  "padStart2 s = (if length s < 2 then replicate (2 - length s) CHR ''0'' @ s else s)"

text \<open>
  \<open>parseInt(s, 10)\<close>: leading white space is skipped, a sign is read, and the longest
  run of decimal digits that follows is the value; \<open>None\<close> is \<open>NaN\<close>, the result when
  there is no digit. The value is kept as an integer (a double is exact up to \<open>2^53\<close>).
\<close>

definition isDigit :: "char \<Rightarrow> bool" where
  "isDigit c = (c \<in> set ''0123456789'')"

definition digitVal :: "char \<Rightarrow> int" where
  "digitVal c = int (length (takeWhile (\<lambda>d. d \<noteq> c) ''0123456789''))"

definition parseInt :: "string \<Rightarrow> int option" where
  "parseInt s =
     (let s1 = dropWhile isSpace s;
          sgn_rest = (case s1 of
                        [] \<Rightarrow> (1, [])
                      | c # r \<Rightarrow> if c = CHR ''-'' then (- 1, r)
                                 else if c = CHR ''+'' then (1, r) else (1, s1));
          ds = takeWhile isDigit (snd sgn_rest)
      in if ds = [] then None
         else Some (fst sgn_rest * foldl (\<lambda>a c. 10 * a + digitVal c) 0 ds))"

subsection \<open>Numbers\<close>

text \<open>
  Integer columns and counters are \<open>int\<close>; sums of them are exact as long as they stay
  below \<open>2^53\<close>, which the model assumes. The truthiness test on an optional number
  fails for the absent value and for \<open>0\<close>.
\<close>

definition truthyNum :: "int option \<Rightarrow> bool" where
  "truthyNum v = (case v of None \<Rightarrow> False | Some n \<Rightarrow> n \<noteq> 0)"

definition orZero :: "int option \<Rightarrow> int" where
  "orZero v = (case v of None \<Rightarrow> 0 | Some n \<Rightarrow> n)"

text \<open>
  Quotients and products are IEEE 754 doubles. A finite double is a rational number,
  and an operation returns the exact result rounded to the nearest double, ties to
  even: \<open>fl\<close> rounds to 53 significant bits. (The exponent range is not bounded in the
  model: the values of the controller are far from overflow and underflow.)
  \<open>bitLength n\<close> is the number of binary digits of \<open>n\<close>, and \<open>binExponent a\<close>, for
  \<open>a > 0\<close>, the exponent \<open>e\<close> with \<open>2^e \<le> a < 2^(e+1)\<close>.
\<close>

function bitLength :: "int \<Rightarrow> int" where
  "bitLength n = (if n \<le> 0 then 0 else 1 + bitLength (n div 2))"
  by pat_completeness auto
termination
  by (relation "measure nat") auto

definition pow2 :: "int \<Rightarrow> rat" where
  "pow2 k = (if 0 \<le> k then 2 ^ nat k else 1 / 2 ^ nat (- k))"

definition binExponent :: "rat \<Rightarrow> int" where
  "binExponent a =
     (let (p, q) = quotient_of a;
          k = bitLength p - bitLength q
      in if pow2 k \<le> a then k else k - 1)"

definition roundHalfEven :: "rat \<Rightarrow> int" where
  "roundHalfEven q =
     (let f = \<lfloor>q\<rfloor>; r = q - of_int f
      in if r < 1 / 2 then f else if 1 / 2 < r then f + 1 else if even f then f else f + 1)"

definition fl :: "rat \<Rightarrow> rat" where
  "fl x =
     (if x = 0 then 0
      else (let a = \<bar>x\<bar>; u = pow2 (binExponent a - 52)
            in sgn x * of_int (roundHalfEven (a / u)) * u))"

definition fdiv :: "rat \<Rightarrow> rat \<Rightarrow> rat" where
  "fdiv a b = fl (a / b)"

definition fmul :: "rat \<Rightarrow> rat \<Rightarrow> rat" where
  "fmul a b = fl (a * b)"


text \<open>\<open>Math.round\<close>: the nearest integer, a tie going towards \<open>+\<infinity>\<close>.\<close>

definition Math_round :: "rat \<Rightarrow> int" where
  "Math_round x = \<lfloor>x + 1 / 2\<rfloor>"

subsection \<open>Arrays, maps and sets\<close>

text \<open>
  \<open>arr.slice(0, end)\<close>: \<open>NaN\<close> counts as 0 and a negative \<open>end\<close> counts from the end
  of the array.
\<close>

definition slice0 :: "'a list \<Rightarrow> int option \<Rightarrow> 'a list" where
  "slice0 xs e =
     (case e of
        None \<Rightarrow> []
      | Some n \<Rightarrow> if n < 0 then take (nat (int (length xs) + n)) xs else take (nat n) xs)"

text \<open>
  A \<open>Map\<close> is the list of its entries in insertion order: \<open>set\<close> replaces the value of
  a key that is present and appends a new key; \<open>get\<close> is \<open>map_of\<close>. A \<open>Set\<close> is the
  list of its elements in insertion order.
\<close>

definition mapHas :: "('k \<times> 'v) list \<Rightarrow> 'k \<Rightarrow> bool" where
  "mapHas m k = (map_of m k \<noteq> None)"

fun mapSet :: "('k \<times> 'v) list \<Rightarrow> 'k \<Rightarrow> 'v \<Rightarrow> ('k \<times> 'v) list" where
  "mapSet [] k v = [(k, v)]"
| "mapSet ((k', v') # m) k v = (if k' = k then (k, v) # m else (k', v') # mapSet m k v)"

definition setAdd :: "'a list \<Rightarrow> 'a \<Rightarrow> 'a list" where
  "setAdd xs x = (if x \<in> set xs then xs else xs @ [x])"

subsection \<open>Dates\<close>

text \<open>
  A \<open>Date\<close> is its time value, milliseconds since the epoch. The local-time accessors
  and the constructor \<open>new Date(year, month, day)\<close> depend on the time zone of the
  server, which is a parameter of the handlers that use them.
\<close>

record zone =
  getFullYear :: "int \<Rightarrow> int"
  getMonth :: "int \<Rightarrow> int"
  getDate :: "int \<Rightarrow> int"
  getHours :: "int \<Rightarrow> int"
  newDate :: "int \<Rightarrow> int \<Rightarrow> int \<Rightarrow> int"

text \<open>
  The zone UTC, for the examples: the proleptic Gregorian calendar, by the usual
  computation with eras of 400 years (146097 days) that start on 1 March.
\<close>

definition civilFromDays :: "int \<Rightarrow> int \<times> int \<times> int" where
  "civilFromDays days =
     (let z = days + 719468;
          era = z div 146097;
          doe = z - era * 146097;
          yoe = (doe - doe div 1460 + doe div 36524 - doe div 146096) div 365;
          y = yoe + era * 400;
          doy = doe - (365 * yoe + yoe div 4 - yoe div 100);
          mp = (5 * doy + 2) div 153;
          d = doy - (153 * mp + 2) div 5 + 1;
          m = (if mp < 10 then mp + 3 else mp - 9)
      in (if m \<le> 2 then y + 1 else y, m, d))"

definition daysFromCivil :: "int \<Rightarrow> int \<Rightarrow> int \<Rightarrow> int" where
  "daysFromCivil y m d =
     (let y' = (if m \<le> 2 then y - 1 else y);
          era = y' div 400;
          yoe = y' - era * 400;
          doy = (153 * (if 2 < m then m - 3 else m + 9) + 2) div 5 + d - 1;
          doe = yoe * 365 + yoe div 4 - yoe div 100 + doy
      in era * 146097 + doe - 719468)"

definition utc :: zone where
  "utc =
     \<lparr>getFullYear = (\<lambda>t. fst (civilFromDays (t div 86400000))),
      getMonth = (\<lambda>t. fst (snd (civilFromDays (t div 86400000))) - 1),
      getDate = (\<lambda>t. snd (snd (civilFromDays (t div 86400000)))),
      getHours = (\<lambda>t. (t mod 86400000) div 3600000),
      newDate = (\<lambda>y m d. daysFromCivil y (m + 1) d * 86400000)\<rparr>"

section \<open>Traffic-source categorisation\<close>

text \<open>
  \<open>categorizeTrafficSource(referrerDomain, utmSource)\<close>. With a UTM source the two
  lists of names are tested with \<open>Array.prototype.includes\<close> (equality with an element)
  and the substrings \<open>email\<close>, \<open>newsletter\<close>, \<open>cpc\<close>, \<open>ads\<close>, \<open>paid\<close> with
  \<open>String.prototype.includes\<close>; the referrer domain is tested with
  \<open>list.some(s => d.includes(s))\<close>.
\<close>

definition categorizeTrafficSource :: "string option \<Rightarrow> string option \<Rightarrow> string" where
  "categorizeTrafficSource referrerDomain utmSource =
     (if truthy utmSource then
        (let s = toLowerCase (the utmSource) in
         if arr_includes [''google'', ''bing'', ''duckduckgo'', ''yahoo'', ''baidu''] s
           then ''Organic Search''
         else if arr_includes [''facebook'', ''instagram'', ''linkedin'', ''twitter'',
                               ''tiktok'', ''reddit'', ''x''] s
           then ''Social Media''
         else if str_includes s ''email'' \<or> str_includes s ''newsletter'' then ''Email''
         else if str_includes s ''cpc'' \<or> str_includes s ''ads'' \<or> str_includes s ''paid''
           then ''Paid Ads''
         else ''Campaign'')
      else if \<not> truthy referrerDomain then ''Direct''
      else
        (let d = toLowerCase (the referrerDomain) in
         if list_ex (\<lambda>s. str_includes d s)
              [''google.com'', ''bing.com'', ''duckduckgo.com'', ''yahoo.com'', ''baidu.com'',
               ''yandex.com'']
           then ''Organic Search''
         else if list_ex (\<lambda>s. str_includes d s)
              [''facebook.com'', ''instagram.com'', ''linkedin.com'', ''twitter.com'', ''x.com'',
               ''tiktok.com'', ''reddit.com'', ''t.co'']
           then ''Social Media''
         else ''Referral''))"

section \<open>The event store\<close>

text \<open>
  The two Prisma models are records, and a table is the list of its rows in insertion
  order. The primary keys are \<open>sid\<close> and \<open>pvid\<close> (both are \<open>id\<close> in the source),
  and the page view's \<open>referrer\<close> column is \<open>pv_referrer\<close>. Time-on-page and scroll
  depth are integer columns.
\<close>

record analyticsSession =
  sid :: string
  visitorId :: string
  entryPage :: "string option"
  exitPage :: "string option"
  referrer :: "string option"
  referrerDomain :: "string option"
  utmSource :: "string option"
  utmMedium :: "string option"
  utmCampaign :: "string option"
  deviceType :: "string option"
  browser :: "string option"
  browserVersion :: "string option"
  os :: "string option"
  osVersion :: "string option"
  screenWidth :: "rat option"
  screenHeight :: "rat option"
  language :: "string option"
  country :: "string option"
  countryCode :: "string option"
  city :: "string option"
  region :: "string option"
  latitude :: "rat option"
  longitude :: "rat option"
  timezone :: "string option"
  startedAt :: int
  lastActiveAt :: int
  duration :: int
  pageViewCount :: int
  bounced :: bool

record pageView =
  pvid :: string
  sessionId :: string
  path :: string
  title :: "string option"
  pv_referrer :: "string option"
  timestamp :: int
  timeOnPage :: "int option"
  scrollDepth :: "int option"

record store =
  sessions :: "analyticsSession list"
  pageViews :: "pageView list"

text \<open>The return value of \<open>geoLookup\<close>: every field is optional.\<close>

record geo =
  g_country :: "string option"
  g_countryCode :: "string option"
  g_city :: "string option"
  g_region :: "string option"
  g_latitude :: "rat option"
  g_longitude :: "rat option"
  g_timezone :: "string option"

text \<open>
  What a handler reads from outside the store during one call: the clock, the
  identifiers the database generates for the rows it inserts, the answer of the
  geolocation service (\<open>None\<close> when the request fails or is not ok), and the host name
  that \<open>new URL(...)\<close> extracts (\<open>None\<close> when it throws).
\<close>

record env =
  now :: int
  newSessionId :: string
  newPageViewId :: string
  fetchGeo :: "string \<Rightarrow> geo option"
  urlHostname :: "string \<Rightarrow> string option"

text \<open>
  The request of \<open>collect\<close>: its validated body, and the two places the client
  address is read from. The body of \<open>heartbeat\<close>.
\<close>

record collectRequest =
  b_visitorId :: string
  b_sessionId :: "string option"
  b_path :: string
  b_title :: "string option"
  b_referrer :: "string option"
  b_utmSource :: "string option"
  b_utmMedium :: "string option"
  b_utmCampaign :: "string option"
  b_deviceType :: "string option"
  b_browser :: "string option"
  b_browserVersion :: "string option"
  b_os :: "string option"
  b_osVersion :: "string option"
  b_screenWidth :: "rat option"
  b_screenHeight :: "rat option"
  b_language :: "string option"
  xForwardedFor :: "string option"
  requestIp :: "string option"

record heartbeatBody =
  h_sessionId :: string
  h_scrollDepth :: "int option"
  h_path :: "string option"

text \<open>
  The replies of the two public handlers: \<open>{status: "ok", sessionId}\<close>,
  \<open>{status: "ok"}\<close>, 404 \<open>{status: "not_found"}\<close> and 500 \<open>{status: "error"}\<close>.
\<close>

datatype reply = OkSession string | Ok | NotFound | Error500

subsection \<open>Store operations\<close>

text \<open>
  \<open>create\<close> inserts a row under the identifier the database generated; a primary key
  that is already taken makes the insert throw, which the handlers catch. \<open>update\<close>
  rewrites the row with the given key.
\<close>

definition createSession :: "store \<Rightarrow> analyticsSession \<Rightarrow> store option" where
  "createSession st row =
     (if sid row \<in> set (map sid (sessions st)) then None
      else Some (st\<lparr>sessions := sessions st @ [row]\<rparr>))"

definition createPageView :: "store \<Rightarrow> pageView \<Rightarrow> store option" where
  "createPageView st row =
     (if pvid row \<in> set (map pvid (pageViews st)) then None
      else Some (st\<lparr>pageViews := pageViews st @ [row]\<rparr>))"

definition updateSession :: "store \<Rightarrow> string \<Rightarrow> (analyticsSession \<Rightarrow> analyticsSession) \<Rightarrow> store" where
  "updateSession st i f = st\<lparr>sessions := map (\<lambda>r. if sid r = i then f r else r) (sessions st)\<rparr>"

definition updatePageView :: "store \<Rightarrow> string \<Rightarrow> (pageView \<Rightarrow> pageView) \<Rightarrow> store" where
  "updatePageView st i f = st\<lparr>pageViews := map (\<lambda>r. if pvid r = i then f r else r) (pageViews st)\<rparr>"

text \<open>
  \<open>findFirst\<close> with \<open>orderBy: {timestamp: "desc"}\<close>: a row with the greatest timestamp;
  among rows with equal timestamps the model takes the first one in table order.
\<close>

fun latestView :: "pageView list \<Rightarrow> pageView option" where
  "latestView [] = None"
| "latestView (v # vs) =
     (case latestView vs of
        None \<Rightarrow> Some v
      | Some w \<Rightarrow> if timestamp v < timestamp w then Some w else Some v)"

subsection \<open>Helpers of the collect handler\<close>

definition extractReferrerDomain :: "(string \<Rightarrow> string option) \<Rightarrow> string option \<Rightarrow> string option" where
  "extractReferrerDomain hostnameOf ref =
     (if \<not> truthy ref then None
      else (case hostnameOf (the ref) of
              None \<Rightarrow> None
            | Some h \<Rightarrow> Some (if startsWith h ''www.'' then drop 4 h else h)))"

text \<open>\<open>x || undefined\<close> on the fields of the geolocation answer.\<close>

definition orUndefinedStr :: "string option \<Rightarrow> string option" where
  "orUndefinedStr v = (if truthy v then v else None)"

definition orUndefinedNum :: "rat option \<Rightarrow> rat option" where
  "orUndefinedNum v = (case v of None \<Rightarrow> None | Some n \<Rightarrow> if n = 0 then None else Some n)"

definition geoLookup :: "(string \<Rightarrow> geo option) \<Rightarrow> string \<Rightarrow> geo" where
  "geoLookup fetch ip =
     (if ip = [] \<or> ip = ''127.0.0.1'' \<or> ip = ''::1'' \<or> startsWith ip ''192.168.''
         \<or> startsWith ip ''10.''
      then \<lparr>g_country = Some ''Local'', g_countryCode = Some ''LO'', g_city = Some ''Localhost'',
            g_region = None, g_latitude = None, g_longitude = None, g_timezone = None\<rparr>
      else (case fetch ip of
              None \<Rightarrow> \<lparr>g_country = None, g_countryCode = None, g_city = None, g_region = None,
                        g_latitude = None, g_longitude = None, g_timezone = None\<rparr>
            | Some d \<Rightarrow>
                \<lparr>g_country = orUndefinedStr (g_country d),
                 g_countryCode = orUndefinedStr (g_countryCode d),
                 g_city = orUndefinedStr (g_city d),
                 g_region = orUndefinedStr (g_region d),
                 g_latitude = orUndefinedNum (g_latitude d),
                 g_longitude = orUndefinedNum (g_longitude d),
                 g_timezone = orUndefinedStr (g_timezone d)\<rparr>))"

text \<open>
  The client address: the first entry of \<open>x-forwarded-for\<close>, trimmed, else the address
  of the connection, else \<open>127.0.0.1\<close>.
\<close>

definition clientIpOf :: "collectRequest \<Rightarrow> string" where
  "clientIpOf r =
     (let h = (case xForwardedFor r of
                 None \<Rightarrow> None
               | Some v \<Rightarrow> Some (trim (takeWhile (\<lambda>c. c \<noteq> CHR '','') v)))
      in if truthy h then the h
         else if truthy (requestIp r) then the (requestIp r)
         else ''127.0.0.1'')"

text \<open>
  Modelled from the spec: the Prisma schema is not part of the source, so the column
  defaults of a new Session row are taken from the data model of the specification:
  started-at and last-active-at are the creation time, the duration is 0, the page-view
  count is 1 and the bounced flag is true. A new PageView row has the creation time as
  its timestamp and neither time-on-page nor scroll depth.
\<close>

definition newSessionRow :: "env \<Rightarrow> collectRequest \<Rightarrow> analyticsSession" where
  "newSessionRow e b =
     (let g = geoLookup (fetchGeo e) (clientIpOf b) in
      \<lparr>sid = newSessionId e,
       visitorId = b_visitorId b,
       entryPage = Some (b_path b),
       exitPage = Some (b_path b),
       referrer = b_referrer b,
       referrerDomain = extractReferrerDomain (urlHostname e) (b_referrer b),
       utmSource = b_utmSource b,
       utmMedium = b_utmMedium b,
       utmCampaign = b_utmCampaign b,
       deviceType = b_deviceType b,
       browser = b_browser b,
       browserVersion = b_browserVersion b,
       os = b_os b,
       osVersion = b_osVersion b,
       screenWidth = b_screenWidth b,
       screenHeight = b_screenHeight b,
       language = b_language b,
       country = g_country g,
       countryCode = g_countryCode g,
       city = g_city g,
       region = g_region g,
       latitude = g_latitude g,
       longitude = g_longitude g,
       timezone = g_timezone g,
       startedAt = now e,
       lastActiveAt = now e,
       duration = 0,
       pageViewCount = 1,
       bounced = True\<rparr>)"

definition newPageViewRow :: "env \<Rightarrow> string \<Rightarrow> string \<Rightarrow> string option \<Rightarrow> string option \<Rightarrow> pageView" where
  "newPageViewRow e s p t r =
     \<lparr>pvid = newPageViewId e, sessionId = s, path = p, title = t, pv_referrer = r,
      timestamp = now e, timeOnPage = None, scrollDepth = None\<rparr>"

subsection \<open>Collect\<close>

text \<open>
  The lookup of an active session: only with a (non-empty) candidate id, a row with
  this id, the visitor id of the request and last activity not before 30 minutes ago.
\<close>

definition findOpenSession :: "env \<Rightarrow> store \<Rightarrow> collectRequest \<Rightarrow> analyticsSession option" where
  "findOpenSession e st b =
     (if truthy (b_sessionId b)
      then find (\<lambda>s. sid s = the (b_sessionId b) \<and> visitorId s = b_visitorId b
                      \<and> now e - 30 * 60 * 1000 \<le> lastActiveAt s) (sessions st)
      else None)"

text \<open>
  \<open>collectHandler\<close>. With an active session: update it, insert the page view, reply
  with its id. Otherwise: insert a new session and its first page view, reply with the
  new id. An insert that throws is answered with 500; what was written before it stays
  written.
\<close>

definition collectHandler :: "env \<Rightarrow> store \<Rightarrow> collectRequest \<Rightarrow> reply \<times> store" where
  "collectHandler e st b =
     (case findOpenSession e st b of
        Some session \<Rightarrow>
          (let st1 = updateSession st (sid session)
                       (\<lambda>r. r\<lparr>lastActiveAt := now e, exitPage := Some (b_path b),
                               pageViewCount := pageViewCount r + 1, bounced := False\<rparr>)
           in case createPageView st1
                     (newPageViewRow e (sid session) (b_path b) (b_title b) (b_referrer b)) of
                None \<Rightarrow> (Error500, st1)
              | Some st2 \<Rightarrow> (OkSession (sid session), st2))
      | None \<Rightarrow>
          (case createSession st (newSessionRow e b) of
             None \<Rightarrow> (Error500, st)
           | Some st1 \<Rightarrow>
               (case createPageView st1
                       (newPageViewRow e (newSessionId e) (b_path b) (b_title b) None) of
                  None \<Rightarrow> (Error500, st1)
                | Some st2 \<Rightarrow> (OkSession (newSessionId e), st2))))"

subsection \<open>Heartbeat\<close>

text \<open>
  \<open>heartbeatHandler\<close>. \<open>Math.floor(ms / 1000)\<close> is the integer quotient, which
  rounds down.
\<close>

definition heartbeatHandler :: "env \<Rightarrow> store \<Rightarrow> heartbeatBody \<Rightarrow> reply \<times> store" where
  "heartbeatHandler e st b =
     (case find (\<lambda>s. sid s = h_sessionId b) (sessions st) of
        None \<Rightarrow> (NotFound, st)
      | Some session \<Rightarrow>
          (let dur = (now e - startedAt session) div 1000;
               st1 = updateSession st (h_sessionId b)
                       (\<lambda>r. r\<lparr>lastActiveAt := now e, duration := dur\<rparr>)
           in if h_scrollDepth b \<noteq> None \<and> truthy (h_path b) then
                (case latestView (filter (\<lambda>v. sessionId v = h_sessionId b \<and> path v = the (h_path b))
                                     (pageViews st1)) of
                   None \<Rightarrow> (Ok, st1)
                 | Some latest \<Rightarrow>
                     (Ok, updatePageView st1 (pvid latest)
                            (\<lambda>v. v\<lparr>scrollDepth :=
                                      Some (max (the (h_scrollDepth b)) (orZero (scrollDepth latest))),
                                    timeOnPage := Some ((now e - timestamp latest) div 1000)\<rparr>)))
              else (Ok, st1)))"

subsection \<open>Runs\<close>

text \<open>A run of the two public operations, one after the other, on the same store.\<close>

datatype call = Collect env collectRequest | Heartbeat env heartbeatBody

fun step :: "store \<Rightarrow> call \<Rightarrow> store" where
  "step st (Collect e b) = snd (collectHandler e st b)"
| "step st (Heartbeat e b) = snd (heartbeatHandler e st b)"

definition run :: "store \<Rightarrow> call list \<Rightarrow> store" where
  "run st cs = foldl step st cs"


section \<open>Aggregations\<close>

subsection \<open>Range selection\<close>

text \<open>
  \<open>query.range || "7d"\<close>, local midnight of the current day, and the start of the
  window of the top-pages view.
\<close>

definition rangeOr7d :: "string option \<Rightarrow> string" where
  "rangeOr7d q = (if truthy q then the q else ''7d'')"

definition startOfToday :: "zone \<Rightarrow> int \<Rightarrow> int" where
  "startOfToday z t = newDate z (getFullYear z t) (getMonth z t) (getDate z t)"

definition sinceOf :: "zone \<Rightarrow> int \<Rightarrow> string \<Rightarrow> int" where
  "sinceOf z t r =
     (if r = ''today'' then startOfToday z t
      else if r = ''30d'' then t - 30 * 86400000
      else if r = ''all'' then 0
      else t - 7 * 86400000)"

subsection \<open>Summary statistics\<close>









subsection \<open>Time series\<close>

record bucket =
  k_views :: int
  k_sessions :: "string list"

record seriesPoint =
  sp_time :: string
  sp_views :: int
  sp_visitors :: int

text \<open>The key of a page view: its local date, with the hour for hourly buckets.\<close>

definition bucketKey :: "zone \<Rightarrow> string \<Rightarrow> int \<Rightarrow> string" where
  "bucketKey z g d =
     (let day = showInt (getFullYear z d) @ ''-'' @ padStart2 (showInt (getMonth z d + 1))
                @ ''-'' @ padStart2 (showInt (getDate z d))
      in if g = ''hour'' then day @ ''T'' @ padStart2 (showInt (getHours z d)) @ '':00''
         else day)"

text \<open>The body of the loop over the page views.\<close>

definition bucketStep :: "zone \<Rightarrow> string \<Rightarrow> (string \<times> bucket) list \<Rightarrow> pageView \<Rightarrow> (string \<times> bucket) list" where
  "bucketStep z g buckets pv =
     (let key = bucketKey z g (timestamp pv);
          buckets1 = (if \<not> mapHas buckets key
                      then mapSet buckets key \<lparr>k_views = 0, k_sessions = []\<rparr>
                      else buckets);
          b = the (map_of buckets1 key)
      in mapSet buckets1 key
           (b\<lparr>k_views := k_views b + 1, k_sessions := setAdd (k_sessions b) (sessionId pv)\<rparr>))"

definition timeSeriesWindow :: "zone \<Rightarrow> int \<Rightarrow> string \<Rightarrow> int \<times> string" where
  "timeSeriesWindow z t r =
     (if r = ''today'' then (startOfToday z t, ''hour'')
      else if r = ''30d'' then (t - 30 * 86400000, ''day'')
      else if r = ''all'' then (t - 90 * 86400000, ''day'')
      else (t - 7 * 86400000, ''day''))"

text \<open>
  \<open>getTimeSeriesHandler\<close> returns the series and the granularity. The final sort
  compares the keys with \<open>localeCompare\<close>; on these keys (digits and fixed separators
  at fixed positions) it is the order of the character codes.
\<close>

definition getTimeSeriesHandler :: "zone \<Rightarrow> int \<Rightarrow> string option \<Rightarrow> store \<Rightarrow> seriesPoint list \<times> string" where
  "getTimeSeriesHandler z t q st =
     (let (since, granularity) = timeSeriesWindow z t (rangeOr7d q);
          pvs = sort_key timestamp (filter (\<lambda>v. since \<le> timestamp v) (pageViews st));
          buckets = foldl (bucketStep z granularity) [] pvs;
          series = sort_key sp_time
                     (map (\<lambda>(tm, d). \<lparr>sp_time = tm, sp_views = k_views d,
                                          sp_visitors = int (length (k_sessions d))\<rparr>) buckets)
      in (series, granularity))"

subsection \<open>Top pages\<close>

record pageAgg =
  a_title :: string
  a_views :: int
  a_totalTime :: int
  a_timeCount :: int
  a_totalScroll :: int
  a_scrollCount :: int
  a_sessions :: "string list"

record pageStat =
  ps_path :: string
  ps_title :: string
  ps_views :: int
  ps_uniqueVisitors :: int
  ps_avgTime :: int
  ps_avgScroll :: int
  ps_bounceRate :: int

text \<open>The bodies of the two loops over the page views.\<close>

definition pageStep :: "(string \<times> pageAgg) list \<Rightarrow> pageView \<Rightarrow> (string \<times> pageAgg) list" where
  "pageStep pageMap v =
     (let pageMap1 =
            (if \<not> mapHas pageMap (path v)
             then mapSet pageMap (path v)
                    \<lparr>a_title = (if truthy (title v) then the (title v) else path v),
                     a_views = 0, a_totalTime = 0, a_timeCount = 0,
                     a_totalScroll = 0, a_scrollCount = 0, a_sessions = []\<rparr>
             else pageMap);
          p = the (map_of pageMap1 (path v));
          p1 = p\<lparr>a_views := a_views p + 1\<rparr>;
          p2 = (if truthy (title v) then p1\<lparr>a_title := the (title v)\<rparr> else p1);
          p3 = (if truthyNum (timeOnPage v)
                then p2\<lparr>a_totalTime := a_totalTime p2 + the (timeOnPage v),
                        a_timeCount := a_timeCount p2 + 1\<rparr>
                else p2);
          p4 = (if truthyNum (scrollDepth v)
                then p3\<lparr>a_totalScroll := a_totalScroll p3 + the (scrollDepth v),
                        a_scrollCount := a_scrollCount p3 + 1\<rparr>
                else p3)
      in mapSet pageMap1 (path v) (p4\<lparr>a_sessions := setAdd (a_sessions p4) (sessionId v)\<rparr>))"

definition countStep :: "(string \<times> int) list \<Rightarrow> pageView \<Rightarrow> (string \<times> int) list" where
  "countStep counts v =
     mapSet counts (sessionId v)
       ((case map_of counts (sessionId v) of None \<Rightarrow> 0 | Some n \<Rightarrow> n) + 1)"

text \<open>The entry of the reply for one path.\<close>

definition pageStatOf :: "(string \<times> int) list \<Rightarrow> string \<times> pageAgg \<Rightarrow> pageStat" where
  "pageStatOf sessionPageCounts entry =
     (let p = fst entry; d = snd entry;
          bouncedSessions =
            int (length (filter (\<lambda>s. map_of sessionPageCounts s = Some 1) (a_sessions d)));
          sz = int (length (a_sessions d))
      in \<lparr>ps_path = p,
          ps_title = a_title d,
          ps_views = a_views d,
          ps_uniqueVisitors = sz,
          ps_avgTime = (if 0 < a_timeCount d
                        then Math_round (fdiv (of_int (a_totalTime d)) (of_int (a_timeCount d)))
                        else 0),
          ps_avgScroll = (if 0 < a_scrollCount d
                          then Math_round (fdiv (of_int (a_totalScroll d)) (of_int (a_scrollCount d)))
                          else 0),
          ps_bounceRate = (if 0 < sz
                           then Math_round (fmul (fdiv (of_int bouncedSessions) (of_int sz)) 100)
                           else 0)\<rparr>)"

text \<open>All pages, ordered by descending view count (the sort is stable).\<close>

definition topPages :: "pageView list \<Rightarrow> pageStat list" where
  "topPages vs =
     (let pageMap = foldl pageStep [] vs;
          sessionPageCounts = foldl countStep [] vs
      in sort_key (\<lambda>p. - ps_views p) (map (pageStatOf sessionPageCounts) pageMap))"

text \<open>
  \<open>getTopPagesHandler\<close>: the limit is \<open>parseInt(q.limit || "20", 10)\<close>, and the reply
  is \<open>pages.slice(0, limit)\<close>.
\<close>

definition getTopPagesHandler :: "zone \<Rightarrow> int \<Rightarrow> string option \<Rightarrow> string option \<Rightarrow> store \<Rightarrow> pageStat list" where
  "getTopPagesHandler z t q lmt st =
     (let limit = parseInt (if truthy lmt then the lmt else ''20'');
          since = sinceOf z t (rangeOr7d q);
          vs = filter (\<lambda>v. since \<le> timestamp v) (pageViews st)
      in slice0 (topPages vs) limit)"

section \<open>Notions of the specification\<close>


text \<open>
  The fields a call may change on a session row: \<open>collectFrame s s'\<close> says that \<open>s'\<close>
  is \<open>s\<close> except for last-active-at, exit page, page-view count and the bounced flag,
  \<open>heartbeatFrame s s'\<close> that it is \<open>s\<close> except for last-active-at and duration.
  \<open>sameOrigin\<close>: the id, the geography fields and started-at are the same.
\<close>

definition collectFrame :: "analyticsSession \<Rightarrow> analyticsSession \<Rightarrow> bool" where
  "collectFrame s s' =
     (s' = s\<lparr>lastActiveAt := lastActiveAt s', exitPage := exitPage s',
             pageViewCount := pageViewCount s', bounced := bounced s'\<rparr>)"

definition heartbeatFrame :: "analyticsSession \<Rightarrow> analyticsSession \<Rightarrow> bool" where
  "heartbeatFrame s s' = (s' = s\<lparr>lastActiveAt := lastActiveAt s', duration := duration s'\<rparr>)"

definition sameOrigin :: "analyticsSession \<Rightarrow> analyticsSession \<Rightarrow> bool" where
  "sameOrigin s s' =
     (sid s' = sid s \<and> country s' = country s \<and> countryCode s' = countryCode s
      \<and> city s' = city s \<and> region s' = region s \<and> latitude s' = latitude s
      \<and> longitude s' = longitude s \<and> timezone s' = timezone s \<and> startedAt s' = startedAt s)"

text \<open>
  The mean of a recorded quantity over the views of a path. \<open>spec_meanRecorded\<close> counts
  every view with a recorded value, \<open>meanNonZero\<close> only the views whose recorded value
  is not 0.
\<close>

definition spec_meanRecorded :: "(pageView \<Rightarrow> int option) \<Rightarrow> pageView list \<Rightarrow> string \<Rightarrow> int" where
  "spec_meanRecorded f vs k =
     (let rec = filter (\<lambda>v. path v = k \<and> f v \<noteq> None) vs
      in if rec = [] then 0
         else Math_round (fdiv (of_int (sum_list (map (\<lambda>v. the (f v)) rec)))
                               (of_nat (length rec))))"

definition meanNonZero :: "(pageView \<Rightarrow> int option) \<Rightarrow> pageView list \<Rightarrow> string \<Rightarrow> int" where
  "meanNonZero f vs k =
     (let rec = filter (\<lambda>v. path v = k \<and> f v \<noteq> None \<and> f v \<noteq> Some 0) vs
      in if rec = [] then 0
         else Math_round (fdiv (of_int (sum_list (map (\<lambda>v. the (f v)) rec)))
                               (of_nat (length rec))))"

text \<open>
  Chronological order of two buckets, by the local calendar fields of two instants;
  the fields are those of a date with a four-digit year.
\<close>

definition localFieldsOk :: "zone \<Rightarrow> int \<Rightarrow> bool" where
  "localFieldsOk z d =
     (1000 \<le> getFullYear z d \<and> getFullYear z d \<le> 9999
      \<and> 0 \<le> getMonth z d \<and> getMonth z d \<le> 11
      \<and> 1 \<le> getDate z d \<and> getDate z d \<le> 31
      \<and> 0 \<le> getHours z d \<and> getHours z d \<le> 23)"

definition earlierBucket :: "zone \<Rightarrow> string \<Rightarrow> int \<Rightarrow> int \<Rightarrow> bool" where
  "earlierBucket z g a b =
     (getFullYear z a < getFullYear z b
      \<or> getFullYear z a = getFullYear z b
        \<and> (getMonth z a < getMonth z b
           \<or> getMonth z a = getMonth z b
             \<and> (getDate z a < getDate z b
                \<or> getDate z a = getDate z b \<and> g = ''hour'' \<and> getHours z a < getHours z b)))"


section \<open>Auxiliary notions of the proofs\<close>

text \<open>
  The state of the two aggregation loops after a list of page views: what the entry of
  a key holds (\<open>pageAggOf\<close>, \<open>bucketOf\<close>), and the entry a step starts from.
\<close>

definition aggBefore :: "(string \<times> pageAgg) list \<Rightarrow> pageView \<Rightarrow> pageAgg" where
  "aggBefore m v =
     (case map_of m (path v) of
        None \<Rightarrow> \<lparr>a_title = (if truthy (title v) then the (title v) else path v),
                  a_views = 0, a_totalTime = 0, a_timeCount = 0,
                  a_totalScroll = 0, a_scrollCount = 0, a_sessions = []\<rparr>
      | Some a \<Rightarrow> a)"

definition pageAggOf :: "pageView list \<Rightarrow> string \<Rightarrow> pageAgg \<Rightarrow> bool" where
  "pageAggOf vs k a =
     (a_views a = int (length (filter (\<lambda>v. path v = k) vs))
      \<and> set (a_sessions a) = sessionId ` {v \<in> set vs. path v = k}
      \<and> distinct (a_sessions a)
      \<and> a_totalTime a
          = sum_list (map (\<lambda>v. the (timeOnPage v))
                       (filter (\<lambda>v. path v = k \<and> truthyNum (timeOnPage v)) vs))
      \<and> a_timeCount a = int (length (filter (\<lambda>v. path v = k \<and> truthyNum (timeOnPage v)) vs))
      \<and> a_totalScroll a
          = sum_list (map (\<lambda>v. the (scrollDepth v))
                       (filter (\<lambda>v. path v = k \<and> truthyNum (scrollDepth v)) vs))
      \<and> a_scrollCount a = int (length (filter (\<lambda>v. path v = k \<and> truthyNum (scrollDepth v)) vs)))"

definition bucketBefore :: "(string \<times> bucket) list \<Rightarrow> string \<Rightarrow> bucket" where
  "bucketBefore m k =
     (case map_of m k of None \<Rightarrow> \<lparr>k_views = 0, k_sessions = []\<rparr> | Some b \<Rightarrow> b)"

definition bucketOf :: "(pageView \<Rightarrow> string) \<Rightarrow> pageView list \<Rightarrow> string \<Rightarrow> bucket \<Rightarrow> bool" where
  "bucketOf key vs k b =
     (k_views b = int (length (filter (\<lambda>v. key v = k) vs))
      \<and> set (k_sessions b) = sessionId ` {v \<in> set vs. key v = k}
      \<and> distinct (k_sessions b))"

section \<open>Example data\<close>

text \<open>One session with one page view, and requests that refer to it.\<close>

definition demoSession :: analyticsSession where
  "demoSession =
     \<lparr>sid = ''s1'', visitorId = ''v1'', entryPage = Some ''/'', exitPage = Some ''/'',
      referrer = None, referrerDomain = None, utmSource = None, utmMedium = None,
      utmCampaign = None, deviceType = None, browser = None, browserVersion = None,
      os = None, osVersion = None, screenWidth = None, screenHeight = None, language = None,
      country = Some ''Local'', countryCode = Some ''LO'', city = Some ''Localhost'',
      region = None, latitude = None, longitude = None, timezone = None,
      startedAt = 0, lastActiveAt = 1000000, duration = 0, pageViewCount = 1,
      bounced = True\<rparr>"

definition demoView :: pageView where
  "demoView =
     \<lparr>pvid = ''p1'', sessionId = ''s1'', path = ''/'', title = None, pv_referrer = None,
      timestamp = 0, timeOnPage = None, scrollDepth = None\<rparr>"

definition demoStore :: store where
  "demoStore = \<lparr>sessions = [demoSession], pageViews = [demoView]\<rparr>"

definition demoEnv :: "int \<Rightarrow> env" where
  "demoEnv t =
     \<lparr>now = t, newSessionId = ''s2'', newPageViewId = ''p2'',
      fetchGeo = (\<lambda>ip. None), urlHostname = (\<lambda>u. None)\<rparr>"

definition demoCollect :: "string option \<Rightarrow> collectRequest" where
  "demoCollect c =
     \<lparr>b_visitorId = ''v1'', b_sessionId = c, b_path = ''/about'', b_title = None,
      b_referrer = None, b_utmSource = None, b_utmMedium = None, b_utmCampaign = None,
      b_deviceType = None, b_browser = None, b_browserVersion = None, b_os = None,
      b_osVersion = None, b_screenWidth = None, b_screenHeight = None, b_language = None,
      xForwardedFor = None, requestIp = None\<rparr>"

definition demoHeartbeat :: "int \<Rightarrow> heartbeatBody" where
  "demoHeartbeat d = \<lparr>h_sessionId = ''s1'', h_scrollDepth = Some d, h_path = Some ''/''\<rparr>"

text \<open>
  Three page views of two sessions: session \<open>s1\<close> has a single view, on \<open>/\<close>, with
  recorded time and scroll depth 0; session \<open>s2\<close> viewed \<open>/\<close> and \<open>/about\<close>.
\<close>

definition demoTraffic :: store where
  "demoTraffic =
     \<lparr>sessions = [],
      pageViews =
        [\<lparr>pvid = ''a'', sessionId = ''s1'', path = ''/'', title = None, pv_referrer = None,
          timestamp = 1000, timeOnPage = Some 0, scrollDepth = Some 0\<rparr>,
         \<lparr>pvid = ''b'', sessionId = ''s2'', path = ''/'', title = None, pv_referrer = None,
          timestamp = 2000, timeOnPage = Some 10, scrollDepth = Some 80\<rparr>,
         \<lparr>pvid = ''c'', sessionId = ''s2'', path = ''/about'', title = None, pv_referrer = None,
          timestamp = 3000, timeOnPage = None, scrollDepth = None\<rparr>]\<rparr>"

text \<open>Page views at 10:05, 10:55 and 11:02 UTC on 15 January 2024.\<close>

definition demoDay :: store where
  "demoDay =
     \<lparr>sessions = [],
      pageViews =
        [\<lparr>pvid = ''a'', sessionId = ''s1'', path = ''/'', title = None, pv_referrer = None,
          timestamp = 1705313100000, timeOnPage = None, scrollDepth = None\<rparr>,
         \<lparr>pvid = ''b'', sessionId = ''s1'', path = ''/about'', title = None, pv_referrer = None,
          timestamp = 1705316100000, timeOnPage = None, scrollDepth = None\<rparr>,
         \<lparr>pvid = ''c'', sessionId = ''s2'', path = ''/'', title = None, pv_referrer = None,
          timestamp = 1705316520000, timeOnPage = None, scrollDepth = None\<rparr>]\<rparr>"



section \<open>Properties\<close>

subsection \<open>Traffic-source categorisation\<close>

text \<open>
  Counterexample to C1 as stated: the social-platform test of the UTM branch is
  \<open>Array.prototype.includes\<close>, equality with one of the listed names, so the UTM source
  \<open>facebook_ads\<close> is not a social platform; it contains \<open>ads\<close> and is categorised
  \<open>Paid Ads\<close>, also when the referrer domain is a social platform.
\<close>

theorem facebook_ads_is_paid_ads:
  "categorizeTrafficSource (Some ''facebook.com'') (Some ''facebook_ads'') = ''Paid Ads''
   \<and> categorizeTrafficSource (Some ''facebook.com'') (Some ''facebook_ads'') \<noteq> ''Social Media''"
  by (simp add: categorizeTrafficSource_def truthy_def toLowerCase_def lowerChar_def
      arr_includes_def)

text \<open>
  C1, amended: the categorisation checks the UTM source first. When a UTM source is
  present (a non-empty string) it alone decides the category, whatever the referrer
  domain is; the category is \<open>Social Media\<close> exactly when the lower-cased UTM source is
  equal to one of the seven social-platform names, and the UTM source \<open>facebook_ads\<close>
  is categorised \<open>Paid Ads\<close> regardless of the referrer domain.
\<close>

theorem utm_source_decides_category:
  assumes "u \<noteq> []"
  shows "categorizeTrafficSource d (Some u) = categorizeTrafficSource None (Some u)
       \<and> (categorizeTrafficSource d (Some u) = ''Social Media'' \<longleftrightarrow>
             toLowerCase u \<in> {''facebook'', ''instagram'', ''linkedin'', ''twitter'',
                               ''tiktok'', ''reddit'', ''x''})
       \<and> categorizeTrafficSource d (Some ''facebook_ads'') = ''Paid Ads''"
proof -
  have "categorizeTrafficSource d (Some u) = categorizeTrafficSource None (Some u)"
    using assms by (simp add: categorizeTrafficSource_def truthy_def)
  moreover have "categorizeTrafficSource d (Some u) = ''Social Media'' \<longleftrightarrow>
           toLowerCase u \<in> {''facebook'', ''instagram'', ''linkedin'', ''twitter'', ''tiktok'',
                             ''reddit'', ''x''}"
    using assms by (simp add: categorizeTrafficSource_def truthy_def arr_includes_def Let_def)
  moreover have "categorizeTrafficSource d (Some ''facebook_ads'') = ''Paid Ads''"
    by (simp add: categorizeTrafficSource_def truthy_def toLowerCase_def lowerChar_def
        arr_includes_def)
  ultimately show ?thesis by simp
qed

text \<open>
  The UTM source \<open>Facebook\<close> with the referrer domain \<open>google.com\<close>: the category is
  \<open>Social Media\<close>, although the referrer alone is categorised \<open>Organic Search\<close>.
\<close>

theorem utm_source_decides_category_witness:
  "''Facebook'' \<noteq> []
   \<and> categorizeTrafficSource (Some ''google.com'') (Some ''Facebook'')
       = categorizeTrafficSource None (Some ''Facebook'')
   \<and> categorizeTrafficSource (Some ''google.com'') (Some ''Facebook'') = ''Social Media''
   \<and> categorizeTrafficSource (Some ''google.com'') None = ''Organic Search''"
proof -
  have ne: "''Facebook'' \<noteq> []" by simp
  have low: "toLowerCase ''Facebook'' = ''facebook''"
    by (simp add: toLowerCase_def lowerChar_def)
  have ref: "categorizeTrafficSource (Some ''google.com'') None = ''Organic Search''"
    by (simp add: categorizeTrafficSource_def truthy_def toLowerCase_def lowerChar_def)
  from utm_source_decides_category [OF ne, of "Some ''google.com''"] low ne ref
  show ?thesis by auto
qed

subsection \<open>The session rows after a call\<close>

text \<open>
  What the store operations do to the two tables, and from it the shape of the session
  table after \<open>collect\<close> and after \<open>heartbeat\<close>.
\<close>

lemma sessions_updateSession_nth:
  "i < length (sessions st) \<Longrightarrow>
     sessions (updateSession st k f) ! i
       = (if sid (sessions st ! i) = k then f (sessions st ! i) else sessions st ! i)"
  by (simp add: updateSession_def)

lemma length_sessions_updateSession [simp]:
  "length (sessions (updateSession st k f)) = length (sessions st)"
  by (simp add: updateSession_def)

lemma pageViews_updateSession [simp]: "pageViews (updateSession st k f) = pageViews st"
  by (simp add: updateSession_def)

lemma sessions_updatePageView [simp]: "sessions (updatePageView st k f) = sessions st"
  by (simp add: updatePageView_def)

lemma createPageView_Some:
  "createPageView st r = Some st' \<Longrightarrow>
     sessions st' = sessions st \<and> pageViews st' = pageViews st @ [r]
     \<and> pvid r \<notin> set (map pvid (pageViews st))"
  by (auto simp: createPageView_def split: if_splits)

lemma createSession_Some:
  "createSession st r = Some st' \<Longrightarrow>
     sessions st' = sessions st @ [r] \<and> pageViews st' = pageViews st
     \<and> sid r \<notin> set (map sid (sessions st))"
  by (auto simp: createSession_def split: if_splits)

lemma collect_sessions_cases:
  "(\<exists>k. sessions (snd (collectHandler e st b)) = sessions (updateSession st k
        (\<lambda>r. r\<lparr>lastActiveAt := now e, exitPage := Some (b_path b),
                pageViewCount := pageViewCount r + 1, bounced := False\<rparr>)))
   \<or> sessions (snd (collectHandler e st b)) = sessions st
   \<or> sessions (snd (collectHandler e st b)) = sessions st @ [newSessionRow e b]"
  by (auto simp: collectHandler_def Let_def split: option.splits
      dest!: createPageView_Some createSession_Some)

lemma heartbeat_sessions:
  "sessions (snd (heartbeatHandler e st b)) = sessions st
   \<or> (\<exists>d. sessions (snd (heartbeatHandler e st b)) = sessions (updateSession st (h_sessionId b)
        (\<lambda>r. r\<lparr>lastActiveAt := now e, duration := d\<rparr>)))"
  by (auto simp: heartbeatHandler_def Let_def split: option.splits)

lemma collectFrame_refl: "collectFrame s s"
  by (simp add: collectFrame_def)

lemma collectFrame_update:
  "collectFrame s (s\<lparr>lastActiveAt := a, exitPage := x, pageViewCount := n, bounced := c\<rparr>)"
  by (simp add: collectFrame_def)

lemma heartbeatFrame_refl: "heartbeatFrame s s"
  by (simp add: heartbeatFrame_def)

lemma heartbeatFrame_update: "heartbeatFrame s (s\<lparr>lastActiveAt := a, duration := d\<rparr>)"
  by (simp add: heartbeatFrame_def)

text \<open>
  A stored session row keeps its position; after a call it is the old row up to the
  fields the call may write.
\<close>

lemma collect_frame_nth:
  assumes "i < length (sessions st)"
  shows "i < length (sessions (snd (collectHandler e st b)))
       \<and> collectFrame (sessions st ! i) (sessions (snd (collectHandler e st b)) ! i)"
proof -
  from collect_sessions_cases [of e st b]
  consider (upd) k where "sessions (snd (collectHandler e st b)) = sessions (updateSession st k
        (\<lambda>r. r\<lparr>lastActiveAt := now e, exitPage := Some (b_path b),
                pageViewCount := pageViewCount r + 1, bounced := False\<rparr>))"
    | (same) "sessions (snd (collectHandler e st b)) = sessions st"
    | (new) "sessions (snd (collectHandler e st b)) = sessions st @ [newSessionRow e b]"
    by blast
  then show ?thesis
  proof cases
    case upd
    then show ?thesis
      using assms by (simp add: sessions_updateSession_nth collectFrame_refl collectFrame_update)
  next
    case same
    then show ?thesis using assms by (simp add: collectFrame_refl)
  next
    case new
    then show ?thesis using assms by (simp add: nth_append collectFrame_refl)
  qed
qed

lemma heartbeat_frame_nth:
  assumes "i < length (sessions st)"
  shows "i < length (sessions (snd (heartbeatHandler e st b)))
       \<and> heartbeatFrame (sessions st ! i) (sessions (snd (heartbeatHandler e st b)) ! i)"
proof -
  from heartbeat_sessions [of e st b]
  consider (same) "sessions (snd (heartbeatHandler e st b)) = sessions st"
    | (upd) d where "sessions (snd (heartbeatHandler e st b)) = sessions (updateSession st (h_sessionId b)
        (\<lambda>r. r\<lparr>lastActiveAt := now e, duration := d\<rparr>))"
    by blast
  then show ?thesis
  proof cases
    case same
    then show ?thesis using assms by (simp add: heartbeatFrame_refl)
  next
    case upd
    then show ?thesis
      using assms by (simp add: sessions_updateSession_nth heartbeatFrame_refl heartbeatFrame_update)
  qed
qed

lemma collectFrame_sameOrigin:
  assumes "collectFrame s s'"
  shows "sameOrigin s s'"
proof -
  define t where "t = s\<lparr>lastActiveAt := lastActiveAt s', exitPage := exitPage s',
             pageViewCount := pageViewCount s', bounced := bounced s'\<rparr>"
  have "s' = t" using assms by (simp add: collectFrame_def t_def)
  moreover have "sameOrigin s t" by (simp add: sameOrigin_def t_def)
  ultimately show ?thesis by simp
qed

lemma heartbeatFrame_sameOrigin:
  assumes "heartbeatFrame s s'"
  shows "sameOrigin s s'"
proof -
  define t where "t = s\<lparr>lastActiveAt := lastActiveAt s', duration := duration s'\<rparr>"
  have "s' = t" using assms by (simp add: heartbeatFrame_def t_def)
  moreover have "sameOrigin s t" by (simp add: sameOrigin_def t_def)
  ultimately show ?thesis by simp
qed

lemma sameOrigin_trans: "sameOrigin a b \<Longrightarrow> sameOrigin b c \<Longrightarrow> sameOrigin a c"
  by (simp add: sameOrigin_def)

lemma sameOrigin_refl: "sameOrigin a a"
  by (simp add: sameOrigin_def)

lemma step_sameOrigin:
  assumes "i < length (sessions st)"
  shows "i < length (sessions (step st c)) \<and> sameOrigin (sessions st ! i) (sessions (step st c) ! i)"
proof (cases c)
  case (Collect e b)
  then show ?thesis
    using collect_frame_nth [OF assms, of e b] by (simp add: collectFrame_sameOrigin)
next
  case (Heartbeat e b)
  then show ?thesis
    using heartbeat_frame_nth [OF assms, of e b] by (simp add: heartbeatFrame_sameOrigin)
qed

lemma run_sameOrigin:
  "i < length (sessions st) \<Longrightarrow>
     i < length (sessions (run st cs)) \<and> sameOrigin (sessions st ! i) (sessions (run st cs) ! i)"
proof (induction cs arbitrary: st)
  case Nil
  then show ?case by (simp add: run_def sameOrigin_refl)
next
  case (Cons c cs)
  from step_sameOrigin [OF Cons.prems, of c]
  have 1: "i < length (sessions (step st c))"
    and 2: "sameOrigin (sessions st ! i) (sessions (step st c) ! i)" by simp_all
  from Cons.IH [OF 1] have 3: "i < length (sessions (run (step st c) cs))"
    and 4: "sameOrigin (sessions (step st c) ! i) (sessions (run (step st c) cs) ! i)" by simp_all
  have "run st (c # cs) = run (step st c) cs" by (simp add: run_def)
  with 2 3 4 show ?case by (auto intro: sameOrigin_trans)
qed

subsection \<open>Collect: reuse of an open session\<close>



lemma map_sid_updateSession:
  "(\<And>r. sid (f r) = sid r) \<Longrightarrow> map sid (sessions (updateSession st k f)) = map sid (sessions st)"
  by (simp add: updateSession_def)

lemma map_pvid_updatePageView:
  "(\<And>r. pvid (f r) = pvid r) \<Longrightarrow> map pvid (pageViews (updatePageView st k f)) = map pvid (pageViews st)"
  by (simp add: updatePageView_def)

lemma pageViews_updatePageView_sessions [simp]:
  "pageViews (updatePageView st k f) = map (\<lambda>r. if pvid r = k then f r else r) (pageViews st)"
  by (simp add: updatePageView_def)



subsection \<open>Heartbeat\<close>

text \<open>A heartbeat leaves the keys of both tables as they are.\<close>

lemma heartbeat_same_ids:
  "map sid (sessions (snd (heartbeatHandler e st b))) = map sid (sessions st)
   \<and> map pvid (pageViews (snd (heartbeatHandler e st b))) = map pvid (pageViews st)"
proof -
  have s: "map sid (sessions (snd (heartbeatHandler e st b))) = map sid (sessions st)"
    using heartbeat_sessions [of e st b] by (auto simp: map_sid_updateSession)
  have p: "map pvid (pageViews (snd (heartbeatHandler e st b))) = map pvid (pageViews st)"
    by (auto simp: heartbeatHandler_def Let_def o_def split: option.splits intro!: map_cong)
  from s p show ?thesis by simp
qed











text \<open>
  C8: for every heartbeat call whose session id matches no existing Session, the reply
  is not-found and the store is unchanged; and for every heartbeat call whatsoever the
  ids of the Session rows and of the PageView rows are the same lists before and after,
  so no row is created.
\<close>

theorem heartbeat_only_mutates:
  "(h_sessionId b \<notin> set (map sid (sessions st)) \<longrightarrow> heartbeatHandler e st b = (NotFound, st))
   \<and> map sid (sessions (snd (heartbeatHandler e st b))) = map sid (sessions st)
   \<and> map pvid (pageViews (snd (heartbeatHandler e st b))) = map pvid (pageViews st)"
proof -
  have "heartbeatHandler e st b = (NotFound, st)"
    if "h_sessionId b \<notin> set (map sid (sessions st))"
  proof -
    from that have "find (\<lambda>s. sid s = h_sessionId b) (sessions st) = None"
      by (force simp: find_None_iff)
    then show ?thesis by (simp add: heartbeatHandler_def)
  qed
  with heartbeat_same_ids [of e st b] show ?thesis by blast
qed

text \<open>A heartbeat for an unknown session, and one for the session \<open>s1\<close>.\<close>

theorem heartbeat_only_mutates_witness:
  "h_sessionId \<lparr>h_sessionId = ''unknown'', h_scrollDepth = Some 50, h_path = Some ''/''\<rparr>
      \<notin> set (map sid (sessions demoStore))
   \<and> heartbeatHandler (demoEnv 61500) demoStore
        \<lparr>h_sessionId = ''unknown'', h_scrollDepth = Some 50, h_path = Some ''/''\<rparr>
       = (NotFound, demoStore)
   \<and> map sid (sessions (snd (heartbeatHandler (demoEnv 61500) demoStore (demoHeartbeat 10))))
       = [''s1'']
   \<and> map pvid (pageViews (snd (heartbeatHandler (demoEnv 61500) demoStore (demoHeartbeat 10))))
       = [''p1'']"
proof -
  have h: "h_sessionId \<lparr>h_sessionId = ''unknown'', h_scrollDepth = Some 50, h_path = Some ''/''\<rparr>
      \<notin> set (map sid (sessions demoStore))"
    by (simp add: demoStore_def demoSession_def)
  have ids: "map sid (sessions demoStore) = [''s1'']" "map pvid (pageViews demoStore) = [''p1'']"
    by (simp_all add: demoStore_def demoSession_def demoView_def)
  from heartbeat_only_mutates [of "\<lparr>h_sessionId = ''unknown'', h_scrollDepth = Some 50, h_path = Some ''/''\<rparr>"
      demoStore "demoEnv 61500"]
    heartbeat_only_mutates [of "demoHeartbeat 10" demoStore "demoEnv 61500"] h ids
  show ?thesis by simp
qed

subsection \<open>Immutable session fields\<close>

text \<open>
  C9: for a Session row that exists in the store, a collect call changes at most
  last-active-at, exit page, page-view count and the bounced flag of the row, a
  heartbeat call at most last-active-at and duration; and after any sequence of collect
  and heartbeat calls the row is still at its place with the same id, the same
  geography fields (country, country code, city, region, latitude, longitude,
  timezone) and the same started-at timestamp.
\<close>

theorem session_origin_immutable:
  assumes "i < length (sessions st)"
  shows "collectFrame (sessions st ! i) (sessions (snd (collectHandler e st b)) ! i)
       \<and> heartbeatFrame (sessions st ! i) (sessions (snd (heartbeatHandler e' st hb)) ! i)
       \<and> i < length (sessions (run st cs))
       \<and> sameOrigin (sessions st ! i) (sessions (run st cs) ! i)"
  using collect_frame_nth [OF assms, of e b] heartbeat_frame_nth [OF assms, of e' hb]
    run_sameOrigin [OF assms, of cs]
  by simp

text \<open>
  A collect and a heartbeat on the example session: last-active-at moves, the
  geography and started-at stay.
\<close>

theorem session_origin_immutable_witness:
  "0 < length (sessions demoStore)
   \<and> sameOrigin demoSession
        (sessions (run demoStore [Collect (demoEnv 2000000) (demoCollect (Some ''s1'')),
                                  Heartbeat (demoEnv 2100000) (demoHeartbeat 10)]) ! 0)
   \<and> country (sessions (run demoStore [Collect (demoEnv 2000000) (demoCollect (Some ''s1'')),
                                  Heartbeat (demoEnv 2100000) (demoHeartbeat 10)]) ! 0)
       = Some ''Local''
   \<and> startedAt (sessions (run demoStore [Collect (demoEnv 2000000) (demoCollect (Some ''s1'')),
                                  Heartbeat (demoEnv 2100000) (demoHeartbeat 10)]) ! 0) = 0
   \<and> lastActiveAt (sessions (run demoStore [Collect (demoEnv 2000000) (demoCollect (Some ''s1'')),
                                  Heartbeat (demoEnv 2100000) (demoHeartbeat 10)]) ! 0) = 2100000"
proof -
  let ?cs = "[Collect (demoEnv 2000000) (demoCollect (Some ''s1'')),
              Heartbeat (demoEnv 2100000) (demoHeartbeat 10)]"
  have l: "0 < length (sessions demoStore)" by (simp add: demoStore_def)
  have z: "sessions demoStore ! 0 = demoSession" by (simp add: demoStore_def)
  from session_origin_immutable [OF l, of _ _ _ _ ?cs] z
  have so: "sameOrigin demoSession (sessions (run demoStore ?cs) ! 0)" by simp
  then have c: "country (sessions (run demoStore ?cs) ! 0) = Some ''Local''"
    and s: "startedAt (sessions (run demoStore ?cs) ! 0) = 0"
    by (simp_all add: sameOrigin_def demoSession_def)
  have la: "lastActiveAt (sessions (run demoStore ?cs) ! 0) = 2100000"
    by (simp add: run_def collectHandler_def heartbeatHandler_def findOpenSession_def
        createPageView_def newPageViewRow_def updateSession_def updatePageView_def
        demoStore_def demoEnv_def demoCollect_def demoHeartbeat_def demoSession_def demoView_def
        truthy_def orZero_def Let_def)
  from l so c s la show ?thesis by simp
qed

subsection \<open>Maps and sets as lists\<close>

lemma map_of_mapSet: "map_of (mapSet m k v) k' = (if k' = k then Some v else map_of m k')"
  by (induction m) auto

lemma keys_mapSet:
  "map fst (mapSet m k v) = (if k \<in> fst ` set m then map fst m else map fst m @ [k])"
  by (induction m) force+

lemma set_keys_mapSet: "fst ` set (mapSet m k v) = insert k (fst ` set m)"
  using arg_cong [OF keys_mapSet [of m k v], of set] by (auto split: if_splits)

lemma distinct_keys_mapSet:
  "distinct (map fst m) \<Longrightarrow> distinct (map fst (mapSet m k v))"
  by (simp add: keys_mapSet)

lemma set_setAdd: "set (setAdd xs x) = insert x (set xs)"
  by (auto simp: setAdd_def)

lemma distinct_setAdd: "distinct xs \<Longrightarrow> distinct (setAdd xs x)"
  by (simp add: setAdd_def)

lemma mapHas_iff: "mapHas m k \<longleftrightarrow> k \<in> fst ` set m"
  by (simp add: mapHas_def map_of_eq_None_iff)

subsection \<open>Top pages: the two loops\<close>

text \<open>The page views counted per session.\<close>

lemma map_of_countStep:
  "map_of (countStep m v) s =
     (if s = sessionId v then Some ((case map_of m s of None \<Rightarrow> 0 | Some n \<Rightarrow> n) + 1)
      else map_of m s)"
  by (simp add: countStep_def map_of_mapSet)

lemma filter_sessionId_empty:
  "s \<notin> sessionId ` set vs \<Longrightarrow> filter (\<lambda>v. sessionId v = s) vs = []"
  by (induction vs) auto

lemma sessionPageCounts:
  "map_of (foldl countStep [] vs) s =
     (if s \<in> sessionId ` set vs then Some (int (length (filter (\<lambda>v. sessionId v = s) vs)))
      else None)"
proof (induction vs rule: rev_induct)
  case Nil
  then show ?case by simp
next
  case (snoc v vs)
  show ?case
  proof (cases "s = sessionId v")
    case True
    show ?thesis
    proof (cases "s \<in> sessionId ` set vs")
      case True
      with snoc \<open>s = sessionId v\<close> show ?thesis by (simp add: map_of_countStep)
    next
      case False
      with snoc \<open>s = sessionId v\<close> filter_sessionId_empty [OF False] show ?thesis
        by (simp add: map_of_countStep)
    qed
  next
    case False
    with snoc show ?thesis by (simp add: map_of_countStep)
  qed
qed

text \<open>The entry of a path after the loop over the page views.\<close>

lemma map_of_pageStep_other:
  "k \<noteq> path v \<Longrightarrow> map_of (pageStep m v) k = map_of m k"
  by (simp add: pageStep_def Let_def map_of_mapSet)

lemma keys_pageStep:
  "map fst (pageStep m v) = (if path v \<in> fst ` set m then map fst m else map fst m @ [path v])"
  by (simp add: pageStep_def Let_def keys_mapSet set_keys_mapSet mapHas_iff)

lemma keys_foldl_pageStep:
  "distinct (map fst (foldl pageStep [] vs)) \<and> set (map fst (foldl pageStep [] vs)) = path ` set vs"
proof (induction vs rule: rev_induct)
  case Nil
  then show ?case by simp
next
  case (snoc v vs)
  then show ?case by (auto simp: keys_pageStep)
qed

lemma map_of_pageStep_same:
  "\<exists>a. map_of (pageStep m v) (path v) = Some a
     \<and> a_views a = a_views (aggBefore m v) + 1
     \<and> a_sessions a = setAdd (a_sessions (aggBefore m v)) (sessionId v)
     \<and> a_totalTime a = a_totalTime (aggBefore m v)
          + (if truthyNum (timeOnPage v) then the (timeOnPage v) else 0)
     \<and> a_timeCount a = a_timeCount (aggBefore m v) + (if truthyNum (timeOnPage v) then 1 else 0)
     \<and> a_totalScroll a = a_totalScroll (aggBefore m v)
          + (if truthyNum (scrollDepth v) then the (scrollDepth v) else 0)
     \<and> a_scrollCount a = a_scrollCount (aggBefore m v) + (if truthyNum (scrollDepth v) then 1 else 0)"
  by (cases "map_of m (path v)")
    (simp_all add: pageStep_def Let_def map_of_mapSet mapHas_def aggBefore_def)

lemma filter_path_empty:
  "k \<notin> path ` set vs \<Longrightarrow> filter (\<lambda>v. path v = k \<and> P v) vs = []"
  by (induction vs) auto

lemma filter_path_empty': "k \<notin> path ` set vs \<Longrightarrow> filter (\<lambda>v. path v = k) vs = []"
  by (induction vs) auto

lemma pageAggOf_init:
  "k \<notin> path ` set vs \<Longrightarrow>
     pageAggOf vs k \<lparr>a_title = t, a_views = 0, a_totalTime = 0, a_timeCount = 0,
                     a_totalScroll = 0, a_scrollCount = 0, a_sessions = []\<rparr>"
proof -
  assume k: "k \<notin> path ` set vs"
  then have "{v \<in> set vs. path v = k} = {}" by auto
  with k show ?thesis
    by (simp add: pageAggOf_def filter_path_empty filter_path_empty')
qed

lemma pageAggOf_snoc_other:
  "k \<noteq> path v \<Longrightarrow> pageAggOf (vs @ [v]) k a = pageAggOf vs k a"
proof -
  assume k: "k \<noteq> path v"
  then have "{x. (x \<in> set vs \<or> x = v) \<and> path x = k} = {x \<in> set vs. path x = k}" by auto
  with k show ?thesis by (auto simp: pageAggOf_def)
qed

lemma pageAggOf_snoc_same:
  assumes "pageAggOf vs (path v) a0"
      and "a_views a = a_views a0 + 1"
      and "a_sessions a = setAdd (a_sessions a0) (sessionId v)"
      and "a_totalTime a = a_totalTime a0 + (if truthyNum (timeOnPage v) then the (timeOnPage v) else 0)"
      and "a_timeCount a = a_timeCount a0 + (if truthyNum (timeOnPage v) then 1 else 0)"
      and "a_totalScroll a = a_totalScroll a0 + (if truthyNum (scrollDepth v) then the (scrollDepth v) else 0)"
      and "a_scrollCount a = a_scrollCount a0 + (if truthyNum (scrollDepth v) then 1 else 0)"
  shows "pageAggOf (vs @ [v]) (path v) a"
proof -
  have s: "sessionId ` {x. (x = v \<or> x \<in> set vs) \<and> path x = path v}
             = insert (sessionId v) (sessionId ` {x \<in> set vs. path x = path v})"
    by auto
  show ?thesis
    using assms unfolding pageAggOf_def
    by (simp add: set_setAdd distinct_setAdd s)
qed

lemma map_of_keys_None: "map_of m k = None \<longleftrightarrow> k \<notin> fst ` set m"
  by (simp add: map_of_eq_None_iff)

lemma pageMap_entries:
  "map_of (foldl pageStep [] vs) k = Some a \<Longrightarrow> pageAggOf vs k a"
proof (induction vs arbitrary: a rule: rev_induct)
  case Nil
  then show ?case by simp
next
  case (snoc v vs)
  let ?m = "foldl pageStep [] vs"
  show ?case
  proof (cases "k = path v")
    case False
    with snoc.prems have "map_of ?m k = Some a" by (simp add: map_of_pageStep_other)
    with snoc.IH False show ?thesis by (simp add: pageAggOf_snoc_other)
  next
    case True
    have a0: "pageAggOf vs (path v) (aggBefore ?m v)"
    proof (cases "map_of ?m (path v)")
      case None
      then have "path v \<notin> path ` set vs"
        using keys_foldl_pageStep [of vs] by (simp add: map_of_keys_None)
      then show ?thesis using None by (simp add: aggBefore_def pageAggOf_init)
    next
      case (Some b)
      with snoc.IH [of b] True show ?thesis by (simp add: aggBefore_def)
    qed
    from map_of_pageStep_same [of ?m v] snoc.prems True
    have "a_views a = a_views (aggBefore ?m v) + 1"
     and "a_sessions a = setAdd (a_sessions (aggBefore ?m v)) (sessionId v)"
     and "a_totalTime a = a_totalTime (aggBefore ?m v)
          + (if truthyNum (timeOnPage v) then the (timeOnPage v) else 0)"
     and "a_timeCount a = a_timeCount (aggBefore ?m v) + (if truthyNum (timeOnPage v) then 1 else 0)"
     and "a_totalScroll a = a_totalScroll (aggBefore ?m v)
          + (if truthyNum (scrollDepth v) then the (scrollDepth v) else 0)"
     and "a_scrollCount a = a_scrollCount (aggBefore ?m v) + (if truthyNum (scrollDepth v) then 1 else 0)"
      by auto
    from pageAggOf_snoc_same [OF a0 this] True show ?thesis by simp
  qed
qed

subsection \<open>Top pages: the reply\<close>

lemma topPages_member:
  assumes "p \<in> set (topPages vs)"
  shows "\<exists>k a. map_of (foldl pageStep [] vs) k = Some a \<and> k \<in> path ` set vs
              \<and> p = pageStatOf (foldl countStep [] vs) (k, a)"
proof -
  from assms obtain k a where ka: "(k, a) \<in> set (foldl pageStep [] vs)"
    and p: "p = pageStatOf (foldl countStep [] vs) (k, a)"
    by (auto simp: topPages_def Let_def)
  from keys_foldl_pageStep [of vs] have d: "distinct (map fst (foldl pageStep [] vs))"
    and s: "set (map fst (foldl pageStep [] vs)) = path ` set vs" by simp_all
  from d ka have "map_of (foldl pageStep [] vs) k = Some a" by simp
  moreover from ka s have "k \<in> path ` set vs" by force
  ultimately show ?thesis using p by blast
qed

lemma distinct_map_insort_key:
  "distinct (map g (insort_key f x xs)) = (g x \<notin> g ` set xs \<and> distinct (map g xs))"
  by (induction xs) (auto simp: set_insort_key)

lemma distinct_map_sort_key: "distinct (map g (sort_key f xs)) = distinct (map g xs)"
  by (induction xs) (simp_all add: distinct_map_insort_key)

lemma ps_path_pageStatOf: "ps_path (pageStatOf c e) = fst e"
  by (simp add: pageStatOf_def Let_def)

lemma topPages_paths:
  "distinct (map ps_path (topPages vs)) \<and> set (map ps_path (topPages vs)) = path ` set vs"
proof -
  let ?m = "foldl pageStep [] vs"
  let ?g = "pageStatOf (foldl countStep [] vs)"
  have m: "map ps_path (map ?g ?m) = map fst ?m"
    by (simp add: ps_path_pageStatOf)
  have "distinct (map ps_path (topPages vs)) = distinct (map ps_path (map ?g ?m))"
    unfolding topPages_def Let_def by (rule distinct_map_sort_key)
  then have d: "distinct (map ps_path (topPages vs))"
    using keys_foldl_pageStep [of vs] by (simp only: m)
  have "set (map ps_path (topPages vs)) = set (map ps_path (map ?g ?m))"
    unfolding topPages_def Let_def by (simp add: image_image)
  then have s: "set (map ps_path (topPages vs)) = path ` set vs"
    using keys_foldl_pageStep [of vs] by (simp only: m)
  from d s show ?thesis by simp
qed

lemma topPages_sorted: "sorted_wrt (\<lambda>a b. ps_views b \<le> ps_views a) (topPages vs)"
proof -
  have "sorted (map (\<lambda>p. - ps_views p) (topPages vs))"
    by (simp add: topPages_def Let_def)
  then show ?thesis by (simp add: sorted_map)
qed

lemma slice0_take: "\<exists>n. slice0 xs e = take n xs"
  by (cases e) (auto simp: slice0_def)

lemma sorted_wrt_take': "sorted_wrt R xs \<Longrightarrow> sorted_wrt R (take n xs)"
  by (metis append_take_drop_id sorted_wrt_append)

lemma bounced_count:
  assumes "pageAggOf vs k a"
  shows "length (filter (\<lambda>s. map_of (foldl countStep [] vs) s = Some 1) (a_sessions a))
         = card {s \<in> sessionId ` {v \<in> set vs. path v = k}.
                   length (filter (\<lambda>v. sessionId v = s) vs) = 1}"
proof -
  from assms have d: "distinct (a_sessions a)"
    and s: "set (a_sessions a) = sessionId ` {v \<in> set vs. path v = k}"
    by (simp_all add: pageAggOf_def)
  have "{s. map_of (foldl countStep [] vs) s = Some 1} \<inter> set (a_sessions a)
        = {s \<in> sessionId ` {v \<in> set vs. path v = k}.
                   length (filter (\<lambda>v. sessionId v = s) vs) = 1}"
    unfolding s by (auto simp: sessionPageCounts)
  with distinct_length_filter [OF d] show ?thesis by simp
qed

lemma sessions_size:
  assumes "pageAggOf vs k a"
  shows "length (a_sessions a) = card (sessionId ` {v \<in> set vs. path v = k})"
  using assms distinct_card [of "a_sessions a"] by (simp add: pageAggOf_def)

lemma topPages_entry:
  assumes "p \<in> set (topPages vs)"
  shows "ps_path p \<in> path ` set vs
       \<and> ps_views p = int (length (filter (\<lambda>v. path v = ps_path p) vs))
       \<and> ps_uniqueVisitors p = int (card (sessionId ` {v \<in> set vs. path v = ps_path p}))
       \<and> ps_bounceRate p =
           Math_round (fmul (fdiv
             (of_nat (card {s \<in> sessionId ` {v \<in> set vs. path v = ps_path p}.
                              length (filter (\<lambda>v. sessionId v = s) vs) = 1}))
             (of_nat (card (sessionId ` {v \<in> set vs. path v = ps_path p})))) 100)"
proof -
  from topPages_member [OF assms] obtain k a where
    ka: "map_of (foldl pageStep [] vs) k = Some a" and k: "k \<in> path ` set vs"
    and p: "p = pageStatOf (foldl countStep [] vs) (k, a)" by blast
  from pageMap_entries [OF ka] have agg: "pageAggOf vs k a" .
  have pk: "ps_path p = k" by (simp add: p ps_path_pageStatOf)
  from k have "sessionId ` {v \<in> set vs. path v = k} \<noteq> {}" by auto
  then have pos: "0 < card (sessionId ` {v \<in> set vs. path v = k})"
    by (simp add: card_gt_0_iff)
  have v: "ps_views p = int (length (filter (\<lambda>v. path v = k) vs))"
    using agg by (simp add: p pageStatOf_def Let_def pageAggOf_def)
  have u: "ps_uniqueVisitors p = int (card (sessionId ` {v \<in> set vs. path v = k}))"
    using sessions_size [OF agg] by (simp add: p pageStatOf_def Let_def)
  have b: "ps_bounceRate p =
           Math_round (fmul (fdiv
             (of_nat (card {s \<in> sessionId ` {v \<in> set vs. path v = k}.
                              length (filter (\<lambda>v. sessionId v = s) vs) = 1}))
             (of_nat (card (sessionId ` {v \<in> set vs. path v = k})))) 100)"
  proof -
    from sessions_size [OF agg] pos have "0 < length (a_sessions a)" by (simp only:)
    then have "a_sessions a \<noteq> []" by simp
    with sessions_size [OF agg] bounced_count [OF agg] show ?thesis
      by (simp add: p pageStatOf_def Let_def)
  qed
  from k v u b show ?thesis unfolding pk by simp
qed

lemma parseInt_Nil: "parseInt [] = None"
  by (simp add: parseInt_def)

lemma parseInt_20: "parseInt ''20'' = Some 20"
  by (simp add: parseInt_def isSpace_def isDigit_def digitVal_def Let_def)

lemma handler_limit_absent:
  "\<not> truthy lmt \<Longrightarrow>
     getTopPagesHandler z t q lmt st
       = take 20 (topPages (filter (\<lambda>v. sinceOf z t (rangeOr7d q) \<le> timestamp v) (pageViews st)))"
  by (simp add: getTopPagesHandler_def Let_def parseInt_20 slice0_def)

lemma handler_limit_given:
  "lmt = Some l \<Longrightarrow> l \<noteq> [] \<Longrightarrow>
     getTopPagesHandler z t q lmt st
       = slice0 (topPages (filter (\<lambda>v. sinceOf z t (rangeOr7d q) \<le> timestamp v) (pageViews st)))
           (parseInt l)"
  by (simp add: getTopPagesHandler_def Let_def truthy_def)

text \<open>
  C5: in the top-pages view, the per-page bounce rate of each path is the percentage
  (\<open>Math.round\<close> of the fraction times 100, in double arithmetic) of that path's
  distinct in-range sessions whose total number of in-range page views across all paths
  is exactly one. The full list has one entry per in-range path with its view count and
  is sorted descending by view count; the reply is the list truncated to the
  caller-supplied limit (a limit that parses to \<open>n \<ge> 0\<close>), and to 20 entries when no
  limit is supplied.
\<close>

theorem top_pages_bounce_order_limit:
  "(let vs = filter (\<lambda>v. sinceOf z t (rangeOr7d q) \<le> timestamp v) (pageViews st);
        pages = getTopPagesHandler z t q lmt st
    in (\<forall>p\<in>set pages.
          ps_path p \<in> path ` set vs
          \<and> ps_bounceRate p =
               Math_round (fmul (fdiv
                 (of_nat (card {s \<in> sessionId ` {v \<in> set vs. path v = ps_path p}.
                                  length (filter (\<lambda>v. sessionId v = s) vs) = 1}))
                 (of_nat (card (sessionId ` {v \<in> set vs. path v = ps_path p})))) 100))
     \<and> sorted_wrt (\<lambda>a b. ps_views b \<le> ps_views a) pages
     \<and> (\<forall>p\<in>set (topPages vs). ps_views p = int (length (filter (\<lambda>v. path v = ps_path p) vs)))
     \<and> distinct (map ps_path (topPages vs))
     \<and> set (map ps_path (topPages vs)) = path ` set vs
     \<and> sorted_wrt (\<lambda>a b. ps_views b \<le> ps_views a) (topPages vs)
     \<and> (lmt = None \<longrightarrow> pages = take 20 (topPages vs))
     \<and> (\<forall>l n. lmt = Some l \<and> parseInt l = Some n \<and> 0 \<le> n
               \<longrightarrow> pages = take (nat n) (topPages vs)))"
proof -
  let ?vs = "filter (\<lambda>v. sinceOf z t (rangeOr7d q) \<le> timestamp v) (pageViews st)"
  let ?pages = "getTopPagesHandler z t q lmt st"
  obtain n where n: "?pages = take n (topPages ?vs)"
    using slice0_take [of "topPages ?vs"] by (auto simp: getTopPagesHandler_def Let_def)
  then have sub: "set ?pages \<subseteq> set (topPages ?vs)" by (simp add: set_take_subset)
  have 1: "\<forall>p\<in>set ?pages.
          ps_path p \<in> path ` set ?vs
          \<and> ps_bounceRate p =
               Math_round (fmul (fdiv
                 (of_nat (card {s \<in> sessionId ` {v \<in> set ?vs. path v = ps_path p}.
                                  length (filter (\<lambda>v. sessionId v = s) ?vs) = 1}))
                 (of_nat (card (sessionId ` {v \<in> set ?vs. path v = ps_path p})))) 100)"
    using sub topPages_entry [of _ ?vs] by blast
  have 2: "sorted_wrt (\<lambda>a b. ps_views b \<le> ps_views a) ?pages"
    unfolding n by (rule sorted_wrt_take') (rule topPages_sorted)
  have 3: "\<forall>p\<in>set (topPages ?vs). ps_views p = int (length (filter (\<lambda>v. path v = ps_path p) ?vs))"
    using topPages_entry [of _ ?vs] by blast
  have 4: "lmt = None \<longrightarrow> ?pages = take 20 (topPages ?vs)"
    using handler_limit_absent [of lmt z t q st] by (auto simp: truthy_def)
  have 5: "\<forall>l n. lmt = Some l \<and> parseInt l = Some n \<and> 0 \<le> n
               \<longrightarrow> ?pages = take (nat n) (topPages ?vs)"
  proof (intro allI impI)
    fix l n
    assume a: "lmt = Some l \<and> parseInt l = Some n \<and> 0 \<le> n"
    then have "l \<noteq> []" by (auto simp: parseInt_Nil)
    with a handler_limit_given [of lmt l z t q st]
    show "?pages = take (nat n) (topPages ?vs)" by (simp add: slice0_def)
  qed
  from 1 2 3 4 5 topPages_paths [of ?vs] topPages_sorted [of ?vs]
  show ?thesis unfolding Let_def by blast
qed

text \<open>The example of three page views, evaluated.\<close>

lemma fl_examples:
  "fdiv 1 2 = 1 / 2" "fmul (1 / 2) 100 = 50" "fdiv 0 1 = 0" "fmul 0 100 = 0"
  "fdiv 10 1 = 10" "fdiv 80 1 = 80"
  by code_simp+

lemma Math_round_examples: "Math_round 50 = 50" "Math_round 0 = 0" "Math_round 10 = 10" "Math_round 80 = 80"
  by code_simp+

lemma demo_topPages:
  "topPages (pageViews demoTraffic) =
     [\<lparr>ps_path = ''/'', ps_title = ''/'', ps_views = 2, ps_uniqueVisitors = 2,
       ps_avgTime = 10, ps_avgScroll = 80, ps_bounceRate = 50\<rparr>,
      \<lparr>ps_path = ''/about'', ps_title = ''/about'', ps_views = 1, ps_uniqueVisitors = 1,
       ps_avgTime = 0, ps_avgScroll = 0, ps_bounceRate = 0\<rparr>]"
  by (simp add: topPages_def demoTraffic_def pageStep_def countStep_def pageStatOf_def
      mapHas_def setAdd_def truthy_def truthyNum_def Let_def fl_examples Math_round_examples)

lemma demo_range_all:
  "filter (\<lambda>v. sinceOf z t (rangeOr7d (Some ''all'')) \<le> timestamp v) (pageViews demoTraffic)
     = pageViews demoTraffic"
  by (simp add: sinceOf_def rangeOr7d_def truthy_def demoTraffic_def)

lemma parseInt_examples:
  "parseInt ''1'' = Some 1" "parseInt ''abc'' = None" "parseInt [] = None"
  by (simp_all add: parseInt_def isSpace_def isDigit_def digitVal_def Let_def)

text \<open>
  On the example, \<open>/\<close> has two sessions of which one has a single page view: bounce
  rate 50. With limit \<open>1\<close> the reply is the entry of \<open>/\<close> alone.
\<close>

theorem top_pages_bounce_order_limit_witness:
  "parseInt ''1'' = Some 1
   \<and> getTopPagesHandler utc 5000 (Some ''all'') (Some ''1'') demoTraffic
       = [\<lparr>ps_path = ''/'', ps_title = ''/'', ps_views = 2, ps_uniqueVisitors = 2,
           ps_avgTime = 10, ps_avgScroll = 80, ps_bounceRate = 50\<rparr>]
   \<and> map ps_bounceRate (getTopPagesHandler utc 5000 (Some ''all'') None demoTraffic) = [50, 0]
   \<and> Math_round (fmul (fdiv
         (of_nat (card {s \<in> sessionId ` {v \<in> set (pageViews demoTraffic). path v = ''/''}.
                          length (filter (\<lambda>v. sessionId v = s) (pageViews demoTraffic)) = 1}))
         (of_nat (card (sessionId ` {v \<in> set (pageViews demoTraffic). path v = ''/''})))) 100)
       = 50"
proof -
  note inst1 = top_pages_bounce_order_limit [of utc 5000 "Some ''all''" demoTraffic "Some ''1''",
      unfolded Let_def demo_range_all]
  note inst2 = top_pages_bounce_order_limit [of utc 5000 "Some ''all''" demoTraffic None,
      unfolded Let_def demo_range_all]
  have p1: "parseInt ''1'' = Some 1" by (rule parseInt_examples)
  from inst1 p1 have "getTopPagesHandler utc 5000 (Some ''all'') (Some ''1'') demoTraffic
       = take (nat 1) (topPages (pageViews demoTraffic))"
    by simp
  then have a: "getTopPagesHandler utc 5000 (Some ''all'') (Some ''1'') demoTraffic
       = [\<lparr>ps_path = ''/'', ps_title = ''/'', ps_views = 2, ps_uniqueVisitors = 2,
           ps_avgTime = 10, ps_avgScroll = 80, ps_bounceRate = 50\<rparr>]"
    by (simp add: demo_topPages)
  from inst2 have b0: "getTopPagesHandler utc 5000 (Some ''all'') None demoTraffic
       = take 20 (topPages (pageViews demoTraffic))"
    by simp
  then have b: "map ps_bounceRate (getTopPagesHandler utc 5000 (Some ''all'') None demoTraffic) = [50, 0]"
    by (simp add: demo_topPages)
  let ?p = "\<lparr>ps_path = ''/'', ps_title = ''/'', ps_views = 2, ps_uniqueVisitors = 2,
           ps_avgTime = 10, ps_avgScroll = 80, ps_bounceRate = 50\<rparr>"
  have "?p \<in> set (getTopPagesHandler utc 5000 (Some ''all'') (Some ''1'') demoTraffic)"
    by (simp add: a)
  with inst1 have "ps_bounceRate ?p = Math_round (fmul (fdiv
         (of_nat (card {s \<in> sessionId ` {v \<in> set (pageViews demoTraffic). path v = ps_path ?p}.
                          length (filter (\<lambda>v. sessionId v = s) (pageViews demoTraffic)) = 1}))
         (of_nat (card (sessionId ` {v \<in> set (pageViews demoTraffic). path v = ps_path ?p})))) 100)"
    by blast
  then have c: "Math_round (fmul (fdiv
         (of_nat (card {s \<in> sessionId ` {v \<in> set (pageViews demoTraffic). path v = ''/''}.
                          length (filter (\<lambda>v. sessionId v = s) (pageViews demoTraffic)) = 1}))
         (of_nat (card (sessionId ` {v \<in> set (pageViews demoTraffic). path v = ''/''})))) 100)
       = 50"
    by simp
  from p1 a b c show ?thesis by blast
qed

subsection \<open>Top pages: means of time-on-page and scroll depth\<close>

lemma truthyNum_iff: "truthyNum x \<longleftrightarrow> x \<noteq> None \<and> x \<noteq> Some 0"
  by (cases x) (simp_all add: truthyNum_def)

lemma topPages_means:
  assumes "p \<in> set (topPages vs)"
  shows "ps_avgTime p = meanNonZero timeOnPage vs (ps_path p)
       \<and> ps_avgScroll p = meanNonZero scrollDepth vs (ps_path p)"
proof -
  from topPages_member [OF assms] obtain k a where
    ka: "map_of (foldl pageStep [] vs) k = Some a"
    and p: "p = pageStatOf (foldl countStep [] vs) (k, a)" by blast
  from pageMap_entries [OF ka] have agg: "pageAggOf vs k a" .
  have pk: "ps_path p = k" by (simp add: p ps_path_pageStatOf)
  have t: "ps_avgTime p = meanNonZero timeOnPage vs k"
    using agg by (simp add: p pageStatOf_def Let_def pageAggOf_def meanNonZero_def truthyNum_iff)
  have s: "ps_avgScroll p = meanNonZero scrollDepth vs k"
    using agg by (simp add: p pageStatOf_def Let_def pageAggOf_def meanNonZero_def truthyNum_iff)
  from t s show ?thesis unfolding pk by simp
qed

text \<open>
  Counterexample to C7 as stated: the path \<open>/\<close> has two in-range views with a
  recorded time-on-page, 0 and 10 seconds. The mean over the views that recorded one
  is 5; the handler reports 10, because \<open>if (v.timeOnPage)\<close> skips the view that
  recorded 0.
\<close>

theorem zero_time_on_page_excluded:
  "ps_path (hd (getTopPagesHandler utc 5000 (Some ''all'') None demoTraffic)) = ''/''
   \<and> ps_avgTime (hd (getTopPagesHandler utc 5000 (Some ''all'') None demoTraffic)) = 10
   \<and> spec_meanRecorded timeOnPage (pageViews demoTraffic) ''/'' = 5"
proof -
  have "getTopPagesHandler utc 5000 (Some ''all'') None demoTraffic
          = take 20 (topPages (pageViews demoTraffic))"
    using handler_limit_absent [of None utc 5000 "Some ''all''" demoTraffic]
    by (simp add: truthy_def demo_range_all)
  then have h: "hd (getTopPagesHandler utc 5000 (Some ''all'') None demoTraffic)
     = \<lparr>ps_path = ''/'', ps_title = ''/'', ps_views = 2, ps_uniqueVisitors = 2,
           ps_avgTime = 10, ps_avgScroll = 80, ps_bounceRate = 50\<rparr>"
    by (simp add: demo_topPages)
  have r: "Math_round (fdiv 10 2) = 5" by code_simp
  have "spec_meanRecorded timeOnPage (pageViews demoTraffic) ''/'' = 5"
    by (simp add: spec_meanRecorded_def demoTraffic_def r)
  with h show ?thesis by simp
qed

text \<open>
  C7, amended: in the top-pages view, for every path the reported mean time-on-page is
  the mean (rounded by \<open>Math.round\<close>) of timeOnPage over exactly those in-range views
  of the path whose recorded time-on-page is present and not 0, and the reported mean
  scroll depth is the mean over exactly those views whose recorded scroll depth is
  present and not 0; it is 0 when there is no such view. A view whose recorded value is
  0 is left out of the respective mean.
\<close>

theorem top_pages_means_skip_zero:
  "(let vs = filter (\<lambda>v. sinceOf z t (rangeOr7d q) \<le> timestamp v) (pageViews st)
    in \<forall>p\<in>set (getTopPagesHandler z t q lmt st).
         ps_avgTime p = meanNonZero timeOnPage vs (ps_path p)
         \<and> ps_avgScroll p = meanNonZero scrollDepth vs (ps_path p))"
proof -
  let ?vs = "filter (\<lambda>v. sinceOf z t (rangeOr7d q) \<le> timestamp v) (pageViews st)"
  obtain n where "getTopPagesHandler z t q lmt st = take n (topPages ?vs)"
    using slice0_take [of "topPages ?vs"] by (auto simp: getTopPagesHandler_def Let_def)
  then have "set (getTopPagesHandler z t q lmt st) \<subseteq> set (topPages ?vs)"
    by (simp add: set_take_subset)
  with topPages_means [of _ ?vs] show ?thesis unfolding Let_def by blast
qed

text \<open>On the example the means of \<open>/\<close> are 10 and 80, those of the second view.\<close>

theorem top_pages_means_skip_zero_witness:
  "ps_avgTime \<lparr>ps_path = ''/'', ps_title = ''/'', ps_views = 2, ps_uniqueVisitors = 2,
           ps_avgTime = 10, ps_avgScroll = 80, ps_bounceRate = 50\<rparr>
     = meanNonZero timeOnPage (pageViews demoTraffic) ''/''
   \<and> meanNonZero timeOnPage (pageViews demoTraffic) ''/'' = 10
   \<and> meanNonZero scrollDepth (pageViews demoTraffic) ''/'' = 80"
proof -
  let ?p = "\<lparr>ps_path = ''/'', ps_title = ''/'', ps_views = 2, ps_uniqueVisitors = 2,
           ps_avgTime = 10, ps_avgScroll = 80, ps_bounceRate = 50\<rparr>"
  have "getTopPagesHandler utc 5000 (Some ''all'') None demoTraffic
          = take 20 (topPages (pageViews demoTraffic))"
    using handler_limit_absent [of None utc 5000 "Some ''all''" demoTraffic]
    by (simp add: truthy_def demo_range_all)
  then have "?p \<in> set (getTopPagesHandler utc 5000 (Some ''all'') None demoTraffic)"
    by (simp add: demo_topPages)
  with top_pages_means_skip_zero [of utc 5000 "Some ''all''" demoTraffic None,
      unfolded Let_def demo_range_all]
  have "ps_avgTime ?p = meanNonZero timeOnPage (pageViews demoTraffic) (ps_path ?p)
      \<and> ps_avgScroll ?p = meanNonZero scrollDepth (pageViews demoTraffic) (ps_path ?p)"
    by blast
  then show ?thesis by simp
qed

subsection \<open>Top pages: a limit that is not a number\<close>




subsection \<open>Time series: the loop\<close>

lemma map_of_bucketStep_other:
  "k \<noteq> bucketKey z g (timestamp v) \<Longrightarrow> map_of (bucketStep z g m v) k = map_of m k"
  by (simp add: bucketStep_def Let_def map_of_mapSet)

lemma keys_bucketStep:
  "map fst (bucketStep z g m v)
     = (if bucketKey z g (timestamp v) \<in> fst ` set m then map fst m
        else map fst m @ [bucketKey z g (timestamp v)])"
  by (simp add: bucketStep_def Let_def keys_mapSet set_keys_mapSet mapHas_iff)

lemma keys_foldl_bucketStep:
  "distinct (map fst (foldl (bucketStep z g) [] vs))
   \<and> set (map fst (foldl (bucketStep z g) [] vs)) = (\<lambda>v. bucketKey z g (timestamp v)) ` set vs"
proof (induction vs rule: rev_induct)
  case Nil
  then show ?case by simp
next
  case (snoc v vs)
  then show ?case by (auto simp: keys_bucketStep)
qed

lemma map_of_bucketStep_same:
  "map_of (bucketStep z g m v) (bucketKey z g (timestamp v))
     = Some \<lparr>k_views = k_views (bucketBefore m (bucketKey z g (timestamp v))) + 1,
             k_sessions = setAdd (k_sessions (bucketBefore m (bucketKey z g (timestamp v))))
                            (sessionId v)\<rparr>"
  by (cases "map_of m (bucketKey z g (timestamp v))")
    (simp_all add: bucketStep_def Let_def map_of_mapSet mapHas_def bucketBefore_def)

lemma filter_key_empty: "k \<notin> key ` set vs \<Longrightarrow> filter (\<lambda>v. key v = k) vs = []"
  by (induction vs) auto

lemma bucketOf_init: "k \<notin> key ` set vs \<Longrightarrow> bucketOf key vs k \<lparr>k_views = 0, k_sessions = []\<rparr>"
proof -
  assume k: "k \<notin> key ` set vs"
  then have "{v \<in> set vs. key v = k} = {}" by auto
  with k show ?thesis by (simp add: bucketOf_def filter_key_empty)
qed

lemma bucketOf_snoc_other: "k \<noteq> key v \<Longrightarrow> bucketOf key (vs @ [v]) k b = bucketOf key vs k b"
proof -
  assume k: "k \<noteq> key v"
  then have "{x. (x \<in> set vs \<or> x = v) \<and> key x = k} = {x \<in> set vs. key x = k}" by auto
  with k show ?thesis by (auto simp: bucketOf_def)
qed

lemma bucketOf_snoc_same:
  assumes "bucketOf key vs (key v) b0"
  shows "bucketOf key (vs @ [v]) (key v)
           \<lparr>k_views = k_views b0 + 1, k_sessions = setAdd (k_sessions b0) (sessionId v)\<rparr>"
proof -
  have s: "sessionId ` {x. (x = v \<or> x \<in> set vs) \<and> key x = key v}
             = insert (sessionId v) (sessionId ` {x \<in> set vs. key x = key v})"
    by auto
  show ?thesis
    using assms unfolding bucketOf_def
    by (simp add: set_setAdd distinct_setAdd s)
qed

lemma bucket_entries:
  "map_of (foldl (bucketStep z g) [] vs) k = Some b \<Longrightarrow>
     bucketOf (\<lambda>v. bucketKey z g (timestamp v)) vs k b"
proof (induction vs arbitrary: b rule: rev_induct)
  case Nil
  then show ?case by simp
next
  case (snoc v vs)
  let ?m = "foldl (bucketStep z g) [] vs"
  let ?key = "\<lambda>v. bucketKey z g (timestamp v)"
  show ?case
  proof (cases "k = ?key v")
    case False
    with snoc.prems have "map_of ?m k = Some b" by (simp add: map_of_bucketStep_other)
    with snoc.IH False show ?thesis by (simp add: bucketOf_snoc_other)
  next
    case True
    have b0: "bucketOf ?key vs (?key v) (bucketBefore ?m (?key v))"
    proof (cases "map_of ?m (?key v)")
      case None
      then have "?key v \<notin> ?key ` set vs"
        using keys_foldl_bucketStep [of z g vs] by (simp add: map_of_keys_None)
      then show ?thesis using None by (simp add: bucketBefore_def bucketOf_init)
    next
      case (Some c)
      with snoc.IH [of c] True show ?thesis by (simp add: bucketBefore_def)
    qed
    from snoc.prems True map_of_bucketStep_same [of z g ?m v]
    have "b = \<lparr>k_views = k_views (bucketBefore ?m (?key v)) + 1,
               k_sessions = setAdd (k_sessions (bucketBefore ?m (?key v))) (sessionId v)\<rparr>"
      by simp
    with bucketOf_snoc_same [of ?key vs v, OF b0] True show ?thesis by simp
  qed
qed

subsection \<open>Time series: the reply\<close>

lemma length_filter_sort_key: "length (filter P (sort_key f xs)) = length (filter P xs)"
  by (simp add: filter_sort)

lemma timeSeries_unfold:
  "getTimeSeriesHandler z t q st =
     (sort_key sp_time
        (map (\<lambda>(tm, d). \<lparr>sp_time = tm, sp_views = k_views d,
                          sp_visitors = int (length (k_sessions d))\<rparr>)
           (foldl (bucketStep z (snd (timeSeriesWindow z t (rangeOr7d q)))) []
              (sort_key timestamp
                 (filter (\<lambda>v. fst (timeSeriesWindow z t (rangeOr7d q)) \<le> timestamp v)
                    (pageViews st))))),
      snd (timeSeriesWindow z t (rangeOr7d q)))"
  by (simp add: getTimeSeriesHandler_def Let_def split_beta)

lemma timeSeriesWindow_cases:
  "timeSeriesWindow z t r =
     ((if r = ''today'' then startOfToday z t
       else if r = ''30d'' then t - 30 * 86400000
       else if r = ''all'' then t - 90 * 86400000
       else t - 7 * 86400000),
      (if r = ''today'' then ''hour'' else ''day''))"
  by (simp add: timeSeriesWindow_def)

lemma time_series_aux:
  fixes key :: "pageView \<Rightarrow> string"
  assumes r_def: "r = rangeOr7d q"
      and g_def: "g = (if r = ''today'' then ''hour'' else ''day'')"
      and since_def: "since = (if r = ''today'' then startOfToday z t
                 else if r = ''30d'' then t - 30 * 86400000
                 else if r = ''all'' then t - 90 * 86400000
                 else t - 7 * 86400000)"
      and vs_def: "vs = filter (\<lambda>v. since \<le> timestamp v) (pageViews st)"
      and key_def: "key = (\<lambda>v. bucketKey z g (timestamp v))"
      and series_def: "series = fst (getTimeSeriesHandler z t q st)"
  shows "snd (getTimeSeriesHandler z t q st) = g
     \<and> sorted (map sp_time series)
     \<and> distinct (map sp_time series)
     \<and> set (map sp_time series) = key ` set vs
     \<and> (\<forall>p\<in>set series.
           sp_views p = int (length (filter (\<lambda>v. key v = sp_time p) vs))
           \<and> 1 \<le> sp_views p
           \<and> sp_visitors p = int (card (sessionId ` {v \<in> set vs. key v = sp_time p})))"
proof -
  define pvs where "pvs = sort_key timestamp vs"
  define m where "m = foldl (bucketStep z g) [] pvs"
  define mk :: "string \<times> bucket \<Rightarrow> seriesPoint" where "mk = (\<lambda>(tm, d). \<lparr>sp_time = tm, sp_views = k_views d,
                          sp_visitors = int (length (k_sessions d))\<rparr>)"
  have w: "timeSeriesWindow z t r = (since, g)"
    by (simp add: timeSeriesWindow_cases since_def g_def)
  have h: "getTimeSeriesHandler z t q st = (sort_key sp_time (map mk m), g)"
    unfolding timeSeries_unfold
    by (simp add: w r_def [symmetric] mk_def m_def pvs_def vs_def)
  then have series: "series = sort_key sp_time (map mk m)" by (simp add: series_def)
  have keys: "distinct (map fst m)" "set (map fst m) = key ` set vs"
    using keys_foldl_bucketStep [of z g pvs] by (simp_all add: m_def key_def pvs_def)
  have tm: "map sp_time (map mk m) = map fst m"
    by (simp add: mk_def split_beta)
  have s1: "sorted (map sp_time series)" by (simp add: series)
  have "distinct (map sp_time series) = distinct (map sp_time (map mk m))"
    unfolding series by (rule distinct_map_sort_key)
  then have s2: "distinct (map sp_time series)" using keys(1) by (simp only: tm)
  have "set (map sp_time series) = set (map sp_time (map mk m))"
    unfolding series by (simp add: image_image)
  then have s3: "set (map sp_time series) = key ` set vs" using keys(2) by (simp only: tm)
  have s4: "sp_views p = int (length (filter (\<lambda>v. key v = sp_time p) vs))
           \<and> 1 \<le> sp_views p
           \<and> sp_visitors p = int (card (sessionId ` {v \<in> set vs. key v = sp_time p}))"
    if "p \<in> set series" for p
  proof -
    from that obtain k b where kb: "(k, b) \<in> set m" and p: "p = mk (k, b)"
      by (auto simp: series)
    from keys(1) kb have "map_of m k = Some b" by simp
    from bucket_entries [OF this [unfolded m_def]]
    have bo: "bucketOf key pvs k b" by (simp add: key_def)
    have pt: "sp_time p = k" by (simp add: p mk_def)
    have v: "sp_views p = int (length (filter (\<lambda>v. key v = k) vs))"
      using bo by (simp add: p mk_def bucketOf_def pvs_def length_filter_sort_key)
    from kb keys(2) have "k \<in> key ` set vs" by force
    then have "filter (\<lambda>v. key v = k) vs \<noteq> []" by (auto simp: filter_empty_conv)
    then have one: "1 \<le> sp_views p" unfolding v by (cases "filter (\<lambda>v. key v = k) vs") simp_all
    have u: "sp_visitors p = int (card (sessionId ` {v \<in> set vs. key v = k}))"
      using bo distinct_card [of "k_sessions b"] by (simp add: p mk_def bucketOf_def pvs_def)
    from v one u show ?thesis unfolding pt by simp
  qed
  have s0: "snd (getTimeSeriesHandler z t q st) = g" using h by simp
  from s0 s1 s2 s3 s4 show ?thesis by blast
qed

text \<open>The example of the specification, evaluated in UTC.\<close>

lemma demo_startOfToday: "startOfToday utc 1705320000000 = 1705276800000"
  by code_simp

lemma demo_keys:
  "bucketKey utc ''hour'' 1705313100000 = ''2024-01-15T10:00''"
  "bucketKey utc ''hour'' 1705316100000 = ''2024-01-15T10:00''"
  "bucketKey utc ''hour'' 1705316520000 = ''2024-01-15T11:00''"
  by code_simp+

lemma demo_series:
  "getTimeSeriesHandler utc 1705320000000 (Some ''today'') demoDay
     = ([\<lparr>sp_time = ''2024-01-15T10:00'', sp_views = 2, sp_visitors = 1\<rparr>,
         \<lparr>sp_time = ''2024-01-15T11:00'', sp_views = 1, sp_visitors = 1\<rparr>], ''hour'')"
  by (simp add: getTimeSeriesHandler_def timeSeriesWindow_def rangeOr7d_def truthy_def
      demo_startOfToday demoDay_def bucketStep_def demo_keys mapHas_def setAdd_def Let_def)

subsection \<open>Time series: the order of the keys\<close>

text \<open>
  Decimal renderings of a fixed width are ordered as the numbers are; so the keys of
  two instants with four-digit years are ordered as their calendar fields.
\<close>

lemma lex10:
  fixes qa ra qb rb :: int
  assumes "0 \<le> ra" "ra < 10" "0 \<le> rb" "rb < 10"
  shows "(qa < qb \<or> qa = qb \<and> ra < rb) \<longleftrightarrow> 10 * qa + ra < 10 * qb + rb"
  using assms by arith

lemma lex100:
  fixes qa ra qb rb :: int
  assumes "0 \<le> ra" "ra < 100" "0 \<le> rb" "rb < 100"
  shows "(qa < qb \<or> qa = qb \<and> ra < rb) \<longleftrightarrow> 100 * qa + ra < 100 * qb + rb"
  using assms by arith

lemma divmod_less_10:
  "(a div 10 < b div 10 \<or> a div 10 = b div 10 \<and> a mod 10 < b mod 10) \<longleftrightarrow> a < b"
  for a b :: int
proof -
  have "(a div 10 < b div 10 \<or> a div 10 = b div 10 \<and> a mod 10 < b mod 10)
        \<longleftrightarrow> 10 * (a div 10) + a mod 10 < 10 * (b div 10) + b mod 10"
    by (rule lex10) simp_all
  then show ?thesis by simp
qed

lemma divmod_less_100:
  "(a div 100 < b div 100 \<or> a div 100 = b div 100 \<and> a mod 100 < b mod 100) \<longleftrightarrow> a < b"
  for a b :: int
proof -
  have "(a div 100 < b div 100 \<or> a div 100 = b div 100 \<and> a mod 100 < b mod 100)
        \<longleftrightarrow> 100 * (a div 100) + a mod 100 < 100 * (b div 100) + b mod 100"
    by (rule lex100) simp_all
  then show ?thesis by simp
qed

lemma divmod_eq_10: "(a div 10 = b div 10 \<and> a mod 10 = b mod 10) \<longleftrightarrow> a = b" for a b :: int
  by (metis mult_div_mod_eq)

lemma divmod_eq_100: "(a div 100 = b div 100 \<and> a mod 100 = b mod 100) \<longleftrightarrow> a = b" for a b :: int
  by (metis mult_div_mod_eq)

lemma tens_digit: "y div 10 mod 10 = y mod 100 div 10" for y :: int
proof -
  have "y mod (10 * 10) = 10 * (y div 10 mod 10) + y mod 10"
    by (rule zmod_zmult2_eq) simp
  then have "y mod 100 div 10 = (10 * (y div 10 mod 10) + y mod 10) div 10" by simp
  also have "\<dots> = y div 10 mod 10" by simp
  finally show ?thesis by simp
qed

lemma units_digit: "y mod 100 mod 10 = y mod 10" for y :: int
  by (simp add: mod_mod_cancel)

lemma digit_cases:
  "0 \<le> (a::int) \<Longrightarrow> a \<le> 9 \<Longrightarrow>
     a = 0 \<or> a = 1 \<or> a = 2 \<or> a = 3 \<or> a = 4 \<or> a = 5 \<or> a = 6 \<or> a = 7 \<or> a = 8 \<or> a = 9"
  by arith

lemma of_char_digitChar:
  assumes "0 \<le> a" "a \<le> 9"
  shows "(of_char (digitChar a) :: nat) = 48 + nat a"
  using digit_cases [OF assms] by (elim disjE) (simp_all add: digitChar_def)

lemma digitChar_less:
  assumes "0 \<le> a" "a \<le> 9" "0 \<le> b" "b \<le> 9"
  shows "digitChar a < digitChar b \<longleftrightarrow> a < b"
  using assms by (auto simp add: less_char_def of_char_digitChar)

lemma digitChar_eq:
  assumes "0 \<le> a" "a \<le> 9" "0 \<le> b" "b \<le> 9"
  shows "digitChar a = digitChar b \<longleftrightarrow> a = b"
proof
  assume "digitChar a = digitChar b"
  then have "(of_char (digitChar a) :: nat) = of_char (digitChar b)" by simp
  with assms show "a = b" by (simp add: of_char_digitChar)
qed simp

lemma showPos_digit: "0 \<le> n \<Longrightarrow> n < 10 \<Longrightarrow> showPos n = [digitChar n]"
  by (simp add: showPos.simps [of n])

lemma pad2:
  assumes "0 \<le> n" "n \<le> 99"
  shows "padStart2 (showInt n) = [digitChar (n div 10), digitChar (n mod 10)]"
proof (cases "n < 10")
  case True
  with assms have "showInt n = [digitChar n]" by (simp add: showInt_def showPos_digit)
  moreover have "digitChar 0 = CHR ''0''" by (simp add: digitChar_def)
  ultimately show ?thesis using True assms by (simp add: padStart2_def)
next
  case False
  with assms have "0 \<le> n div 10" "n div 10 < 10" by simp_all
  then have "showPos (n div 10) = [digitChar (n div 10)]" by (rule showPos_digit)
  with False assms have "showInt n = [digitChar (n div 10), digitChar (n mod 10)]"
    by (simp add: showInt_def showPos.simps [of n])
  then show ?thesis by (simp add: padStart2_def)
qed

lemma length_pad2: "0 \<le> n \<Longrightarrow> n \<le> 99 \<Longrightarrow> length (padStart2 (showInt n)) = 2"
  by (simp add: pad2)

lemma pad2_less:
  assumes "0 \<le> a" "a \<le> 99" "0 \<le> b" "b \<le> 99"
  shows "padStart2 (showInt a) < padStart2 (showInt b) \<longleftrightarrow> a < b"
proof -
  from assms have r: "0 \<le> a div 10" "a div 10 \<le> 9" "0 \<le> a mod 10" "a mod 10 \<le> 9"
    "0 \<le> b div 10" "b div 10 \<le> 9" "0 \<le> b mod 10" "b mod 10 \<le> 9" by simp_all
  have "padStart2 (showInt a) < padStart2 (showInt b)
        \<longleftrightarrow> a div 10 < b div 10 \<or> a div 10 = b div 10 \<and> a mod 10 < b mod 10"
    using r by (simp add: pad2 [OF assms(1,2)] pad2 [OF assms(3,4)] digitChar_less digitChar_eq)
  then show ?thesis by (simp only: divmod_less_10)
qed

lemma pad2_eq:
  assumes "0 \<le> a" "a \<le> 99" "0 \<le> b" "b \<le> 99"
  shows "padStart2 (showInt a) = padStart2 (showInt b) \<longleftrightarrow> a = b"
proof -
  from assms have r: "0 \<le> a div 10" "a div 10 \<le> 9" "0 \<le> a mod 10" "a mod 10 \<le> 9"
    "0 \<le> b div 10" "b div 10 \<le> 9" "0 \<le> b mod 10" "b mod 10 \<le> 9" by simp_all
  have "padStart2 (showInt a) = padStart2 (showInt b)
        \<longleftrightarrow> a div 10 = b div 10 \<and> a mod 10 = b mod 10"
    using r by (simp add: pad2 [OF assms(1,2)] pad2 [OF assms(3,4)] digitChar_eq)
  then show ?thesis by (simp only: divmod_eq_10)
qed

lemma show4:
  assumes "1000 \<le> y" "y \<le> 9999"
  shows "showInt y = padStart2 (showInt (y div 100)) @ padStart2 (showInt (y mod 100))"
proof -
  from assms have hi: "10 \<le> y div 100" "y div 100 \<le> 99" by simp_all
  have lo: "0 \<le> y mod 100" "y mod 100 \<le> 99" by simp_all
  have d: "y div 10 div 10 = y div 100" by simp
  from assms have 1: "showPos y = showPos (y div 10) @ [digitChar (y mod 10)]"
    by (subst showPos.simps) simp
  from assms have 2: "showPos (y div 10) = showPos (y div 100) @ [digitChar (y div 10 mod 10)]"
    by (subst showPos.simps) (simp add: d)
  from hi have 3: "showPos (y div 100) = showPos (y div 100 div 10) @ [digitChar (y div 100 mod 10)]"
    by (subst showPos.simps) simp
  from hi have 4: "showPos (y div 100 div 10) = [digitChar (y div 100 div 10)]"
    by (intro showPos_digit) simp_all
  from assms have "showInt y = [digitChar (y div 100 div 10), digitChar (y div 100 mod 10),
                      digitChar (y div 10 mod 10), digitChar (y mod 10)]"
    by (simp only: showInt_def 1 2 3 4) simp
  moreover from hi have "padStart2 (showInt (y div 100))
      = [digitChar (y div 100 div 10), digitChar (y div 100 mod 10)]"
    by (intro pad2) simp_all
  moreover from lo have "padStart2 (showInt (y mod 100))
      = [digitChar (y mod 100 div 10), digitChar (y mod 100 mod 10)]"
    by (intro pad2) simp_all
  ultimately show ?thesis by (simp only: tens_digit units_digit append.simps)
qed

lemma append_less_same_length:
  "length xs = length ys \<Longrightarrow> (xs @ us < ys @ vs) \<longleftrightarrow> xs < ys \<or> (xs = ys \<and> us < vs)"
  for xs ys :: "'a::linorder list"
  by (induction xs ys rule: list_induct2) auto

lemma show4_less:
  assumes "1000 \<le> a" "a \<le> 9999" "1000 \<le> b" "b \<le> 9999"
  shows "showInt a < showInt b \<longleftrightarrow> a < b"
proof -
  from assms have r: "0 \<le> a div 100" "a div 100 \<le> 99" "0 \<le> b div 100" "b div 100 \<le> 99"
    "0 \<le> a mod 100" "a mod 100 \<le> 99" "0 \<le> b mod 100" "b mod 100 \<le> 99" by simp_all
  have "showInt a < showInt b
        \<longleftrightarrow> a div 100 < b div 100 \<or> a div 100 = b div 100 \<and> a mod 100 < b mod 100"
    using r by (simp add: show4 [OF assms(1,2)] show4 [OF assms(3,4)] append_less_same_length
        length_pad2 pad2_less pad2_eq)
  then show ?thesis by (simp only: divmod_less_100)
qed

lemma show4_eq:
  assumes "1000 \<le> a" "a \<le> 9999" "1000 \<le> b" "b \<le> 9999"
  shows "showInt a = showInt b \<longleftrightarrow> a = b"
proof -
  from assms have r: "0 \<le> a div 100" "a div 100 \<le> 99" "0 \<le> b div 100" "b div 100 \<le> 99"
    "0 \<le> a mod 100" "a mod 100 \<le> 99" "0 \<le> b mod 100" "b mod 100 \<le> 99" by simp_all
  have "showInt a = showInt b
        \<longleftrightarrow> a div 100 = b div 100 \<and> a mod 100 = b mod 100"
    using r by (simp add: show4 [OF assms(1,2)] show4 [OF assms(3,4)] length_pad2 pad2_eq)
  then show ?thesis by (simp only: divmod_eq_100)
qed

lemma length_show4: "1000 \<le> y \<Longrightarrow> y \<le> 9999 \<Longrightarrow> length (showInt y) = 4"
  by (simp add: show4 length_pad2)

lemma bucketKey_day_less:
  assumes "localFieldsOk z a" "localFieldsOk z b"
  shows "bucketKey z ''day'' a < bucketKey z ''day'' b \<longleftrightarrow>
           getFullYear z a < getFullYear z b
           \<or> getFullYear z a = getFullYear z b
             \<and> (getMonth z a < getMonth z b
                \<or> getMonth z a = getMonth z b \<and> getDate z a < getDate z b)"
proof -
  from assms have r:
    "1000 \<le> getFullYear z a" "getFullYear z a \<le> 9999"
    "1000 \<le> getFullYear z b" "getFullYear z b \<le> 9999"
    "0 \<le> getMonth z a + 1" "getMonth z a + 1 \<le> 99"
    "0 \<le> getMonth z b + 1" "getMonth z b + 1 \<le> 99"
    "0 \<le> getDate z a" "getDate z a \<le> 99"
    "0 \<le> getDate z b" "getDate z b \<le> 99"
    by (simp_all add: localFieldsOk_def)
  show ?thesis
    using r by (simp add: bucketKey_def Let_def append_less_same_length length_show4 length_pad2
        show4_less show4_eq pad2_less pad2_eq) arith
qed

lemma bucketKey_hour_less:
  assumes "localFieldsOk z a" "localFieldsOk z b"
  shows "bucketKey z ''hour'' a < bucketKey z ''hour'' b \<longleftrightarrow>
           getFullYear z a < getFullYear z b
           \<or> getFullYear z a = getFullYear z b
             \<and> (getMonth z a < getMonth z b
                \<or> getMonth z a = getMonth z b
                  \<and> (getDate z a < getDate z b
                     \<or> getDate z a = getDate z b \<and> getHours z a < getHours z b))"
proof -
  from assms have r:
    "1000 \<le> getFullYear z a" "getFullYear z a \<le> 9999"
    "1000 \<le> getFullYear z b" "getFullYear z b \<le> 9999"
    "0 \<le> getMonth z a + 1" "getMonth z a + 1 \<le> 99"
    "0 \<le> getMonth z b + 1" "getMonth z b + 1 \<le> 99"
    "0 \<le> getDate z a" "getDate z a \<le> 99"
    "0 \<le> getDate z b" "getDate z b \<le> 99"
    "0 \<le> getHours z a" "getHours z a \<le> 99"
    "0 \<le> getHours z b" "getHours z b \<le> 99"
    by (simp_all add: localFieldsOk_def)
  show ?thesis
    using r by (simp add: bucketKey_def Let_def append_less_same_length length_show4 length_pad2
        show4_less show4_eq pad2_less pad2_eq) arith
qed

lemma bucketKey_less:
  assumes "localFieldsOk z a" "localFieldsOk z b" "g = ''hour'' \<or> g = ''day''"
  shows "bucketKey z g a < bucketKey z g b \<longleftrightarrow> earlierBucket z g a b"
  using assms(3) bucketKey_hour_less [OF assms(1,2)] bucketKey_day_less [OF assms(1,2)]
  by (auto simp: earlierBucket_def)

text \<open>
  C6: the time-series view buckets the in-range page views by hour when the range is
  \<open>today\<close> and by calendar day for every other range, the range \<open>all\<close> being restricted
  to the trailing 90 days. One point is emitted per bucket that holds an in-range view,
  and none for a period without events; it reports the number of views and the number
  of distinct session ids of its bucket. The points are in strictly ascending order of
  their keys, which is the chronological order of the buckets (stated for local dates
  with a four-digit year).
\<close>

theorem time_series_buckets:
  "(let r = rangeOr7d q;
        g = (if r = ''today'' then ''hour'' else ''day'');
        since = (if r = ''today'' then startOfToday z t
                 else if r = ''30d'' then t - 30 * 86400000
                 else if r = ''all'' then t - 90 * 86400000
                 else t - 7 * 86400000);
        vs = filter (\<lambda>v. since \<le> timestamp v) (pageViews st);
        key = (\<lambda>v. bucketKey z g (timestamp v));
        series = fst (getTimeSeriesHandler z t q st)
    in snd (getTimeSeriesHandler z t q st) = g
     \<and> sorted (map sp_time series)
     \<and> distinct (map sp_time series)
     \<and> set (map sp_time series) = key ` set vs
     \<and> (\<forall>p\<in>set series.
           sp_views p = int (length (filter (\<lambda>v. key v = sp_time p) vs))
           \<and> 1 \<le> sp_views p
           \<and> sp_visitors p = int (card (sessionId ` {v \<in> set vs. key v = sp_time p})))
     \<and> (\<forall>a b. localFieldsOk z a \<and> localFieldsOk z b \<longrightarrow>
           (bucketKey z g a < bucketKey z g b \<longleftrightarrow> earlierBucket z g a b)))"
proof -
  have "\<forall>a b. localFieldsOk z a \<and> localFieldsOk z b \<longrightarrow>
           (bucketKey z (if rangeOr7d q = ''today'' then ''hour'' else ''day'') a
              < bucketKey z (if rangeOr7d q = ''today'' then ''hour'' else ''day'') b
            \<longleftrightarrow> earlierBucket z (if rangeOr7d q = ''today'' then ''hour'' else ''day'') a b)"
    by (intro allI impI bucketKey_less) auto
  with time_series_aux [OF refl refl refl refl refl refl]
  show ?thesis unfolding Let_def by blast
qed

lemma demo_fields:
  "localFieldsOk utc 1705313100000" "localFieldsOk utc 1705316520000"
  "earlierBucket utc ''hour'' 1705313100000 1705316520000"
  by code_simp+

text \<open>
  Views at 10:05, 10:55 and 11:02 with the range \<open>today\<close> yield exactly two buckets:
  10:00 with 2 views and 11:00 with 1 view.
\<close>

theorem time_series_buckets_witness:
  "localFieldsOk utc 1705313100000 \<and> localFieldsOk utc 1705316520000
   \<and> bucketKey utc ''hour'' 1705313100000 < bucketKey utc ''hour'' 1705316520000
   \<and> getTimeSeriesHandler utc 1705320000000 (Some ''today'') demoDay
       = ([\<lparr>sp_time = ''2024-01-15T10:00'', sp_views = 2, sp_visitors = 1\<rparr>,
           \<lparr>sp_time = ''2024-01-15T11:00'', sp_views = 1, sp_visitors = 1\<rparr>], ''hour'')
   \<and> sorted (map sp_time (fst (getTimeSeriesHandler utc 1705320000000 (Some ''today'') demoDay)))"
proof -
  have r: "rangeOr7d (Some ''today'') = ''today''" by (simp add: rangeOr7d_def truthy_def)
  note inst = time_series_buckets [of "Some ''today''" utc 1705320000000 demoDay,
      unfolded Let_def r, simplified]
  from inst have s: "sorted (map sp_time (fst (getTimeSeriesHandler utc 1705320000000 (Some ''today'') demoDay)))"
    by blast
  from inst demo_fields
  have k: "bucketKey utc ''hour'' 1705313100000 < bucketKey utc ''hour'' 1705316520000"
    by blast
  from s k demo_fields(1,2) demo_series show ?thesis by blast
qed

subsection \<open>Summary statistics\<close>















end
